theory Spec2Isabelle
  imports Main "HOL-Library.Word"
begin

section \<open>The Ink!FundMe escrow contract\<close>

text \<open>
  The contract is the Rust (ink!) code quoted in the repository's tutorial: the storage
  struct \<^verbatim>\<open>InkFundMe\<close>, the queries \<^verbatim>\<open>get_campaign\<close>, \<^verbatim>\<open>get_contribution\<close>,
  \<^verbatim>\<open>get_campaign_count\<close> and the four messages \<^verbatim>\<open>create_campaign\<close>, \<^verbatim>\<open>contribute\<close>,
  \<^verbatim>\<open>finalize\<close>, \<^verbatim>\<open>claim_refund\<close>. Each message takes \<^verbatim>\<open>&mut self\<close>: its body is a
  function from the storage to a result and the storage as the body leaves it. The
  messages are declared \<^verbatim>\<open>#[ink(message)]\<close> and return a \<^verbatim>\<open>Result\<close>: what a caller
  observes is the body's storage when the body returns \<^verbatim>\<open>Ok\<close>, and the storage from
  before the call when it returns \<^verbatim>\<open>Err\<close> or aborts.
\<close>

subsection \<open>Data\<close>

type_synonym u32 = "32 word"
type_synonym u64 = "64 word"
type_synonym u256 = "256 word"
type_synonym address = "160 word"

text \<open>The struct \<^verbatim>\<open>Campaign\<close>; its field \<^verbatim>\<open>id\<close> is called \<open>ident\<close> here.\<close>

record campaign =
  ident :: u32
  title :: string
  description :: string
  goal :: u256
  deadline :: u64
  owner :: address
  raised :: u256
  completed :: bool

text \<open>
  The error kinds of the command surface. The token contract's failures reach the caller
  through the \<^verbatim>\<open>?\<close> operator, so they are part of the same type.
\<close>

datatype error =
    CampaignNotFound
  | InvalidParameters
  | CampaignCompleted
  | DeadlineReached
  | OnlyOwner
  | DeadlineNotReached
  | CampaignNotCompleted
  | CampaignSuccessful
  | NoContribution
  | Overflow
  | InsufficientBalance
  | InsufficientAllowance

text \<open>
  A call returns \<^verbatim>\<open>Ok\<close>, returns \<^verbatim>\<open>Err\<close>, or aborts: \<^verbatim>\<open>unwrap\<close> on \<^verbatim>\<open>None\<close>, \<^verbatim>\<open>+\<close> on
  \<^verbatim>\<open>U256\<close> and the checked \<^verbatim>\<open>+=\<close> on \<^verbatim>\<open>u32\<close> panic instead of returning. An
  aborted call is reverted, and a history ends there.
\<close>

datatype 'a result = Ok 'a | Err error | Panic

subsection \<open>The token ledger\<close>

text \<open>
  Modelled from the spec: the token contract behind \<^verbatim>\<open>token_contract\<close> is not among the
  sources; only the calls \<^verbatim>\<open>transfer_from\<close> and \<^verbatim>\<open>transfer\<close> are. The ledger keeps a
  non-negative integer balance per identity and an allowance per (owner, spender).
  \<^verbatim>\<open>transfer\<close> fails with \<^verbatim>\<open>InsufficientBalance\<close> when the sender holds less than the
  amount and otherwise debits the sender and credits the receiver. \<^verbatim>\<open>transfer_from\<close> fails
  with \<^verbatim>\<open>InsufficientAllowance\<close> when the allowance is below the amount, fails as
  \<^verbatim>\<open>transfer\<close> does, and otherwise lowers the allowance by the amount and transfers.
\<close>

record token =
  balances :: "address \<Rightarrow> nat"
  allowances :: "address \<times> address \<Rightarrow> nat"

definition transfer :: "token \<Rightarrow> address \<Rightarrow> address \<Rightarrow> nat \<Rightarrow> error + token" where
  "transfer t from_acct to_acct amount =
     (if balances t from_acct < amount then Inl InsufficientBalance
      else
        let debited = (balances t)(from_acct := balances t from_acct - amount)
        in Inr (t\<lparr>balances := debited(to_acct := debited to_acct + amount)\<rparr>))"

definition transfer_from ::
  "token \<Rightarrow> address \<Rightarrow> address \<Rightarrow> address \<Rightarrow> nat \<Rightarrow> error + token" where
  "transfer_from t spender from_acct to_acct amount =
     (if allowances t (from_acct, spender) < amount then Inl InsufficientAllowance
      else
        case transfer t from_acct to_acct amount of
          Inl e \<Rightarrow> Inl e
        | Inr t' \<Rightarrow>
            Inr (t'\<lparr>allowances := (allowances t')
                   ((from_acct, spender) := allowances t' (from_acct, spender) - amount)\<rparr>))"

text \<open>
  Modelled from the spec: \<^verbatim>\<open>approve\<close> sets the allowance of a spender over an owner's
  balance to the amount, replacing the old one. The contract never calls it; token holders
  do, before they contribute.
\<close>

definition approve :: "token \<Rightarrow> address \<Rightarrow> address \<Rightarrow> nat \<Rightarrow> token" where
  "approve t owner_acct spender amount =
     t\<lparr>allowances := (allowances t)((owner_acct, spender) := amount)\<rparr>"

subsection \<open>Storage and environment\<close>

text \<open>
  The struct \<^verbatim>\<open>InkFundMe\<close>. \<^verbatim>\<open>token_contract\<close> refers to the token ledger, whose state
  is carried here; \<^verbatim>\<open>campaigns\<close> is a \<^verbatim>\<open>StorageVec\<close>, \<^verbatim>\<open>contributions\<close> a \<^verbatim>\<open>Mapping\<close>.
\<close>

record inkfundme =
  token_contract :: token
  campaigns :: "campaign list"
  contributions :: "u32 \<times> address \<rightharpoonup> u256"
  next_campaign_id :: u32

text \<open>What \<^verbatim>\<open>self.env()\<close> gives a message: the caller, the block time, the contract's account.\<close>

record env =
  caller :: address
  block_timestamp :: u64
  account_id :: address

text \<open>
  Modelled from the spec: the constructor's body is not among the sources. The store starts
  empty and ids start at 0.
\<close>

definition new :: "token \<Rightarrow> inkfundme" where
  "new tok = \<lparr>token_contract = tok, campaigns = [], contributions = Map.empty,
              next_campaign_id = 0\<rparr>"

text \<open>
  \<^verbatim>\<open>StorageVec\<close> counts its elements in a \<^verbatim>\<open>u32\<close>: \<^verbatim>\<open>len\<close> returns that count,
  \<^verbatim>\<open>get\<close> returns \<^verbatim>\<open>None\<close> out of range, and \<^verbatim>\<open>push\<close> aborts when the count cannot grow.
\<close>

definition storage_vec_len :: "'a list \<Rightarrow> u32" where
  "storage_vec_len xs = of_nat (length xs)"

definition storage_vec_get :: "'a list \<Rightarrow> u32 \<Rightarrow> 'a option" where
  "storage_vec_get xs i = (if unat i < length xs then Some (xs ! unat i) else None)"

definition storage_vec_push :: "'a list \<Rightarrow> 'a \<Rightarrow> 'a list option" where
  "storage_vec_push xs x = (if length xs < 2 ^ 32 - 1 then Some (xs @ [x]) else None)"

text \<open>\<^verbatim>\<open>U256::checked_add\<close>: \<^verbatim>\<open>None\<close> when the sum leaves the range.\<close>

definition checked_add :: "u256 \<Rightarrow> u256 \<Rightarrow> u256 option" where
  "checked_add a b = (if unat a + unat b < 2 ^ 256 then Some (a + b) else None)"

subsection \<open>Queries\<close>

definition get_campaign :: "inkfundme \<Rightarrow> u32 \<Rightarrow> campaign result" where
  "get_campaign s campaign_id =
     (if campaign_id \<ge> storage_vec_len (campaigns s) then Err CampaignNotFound
      else case storage_vec_get (campaigns s) campaign_id of
             Some c \<Rightarrow> Ok c
           | None \<Rightarrow> Panic)"

text \<open>
  Modelled from the spec: \<^verbatim>\<open>get_campaign_mut\<close> is called by three messages and is not
  among the sources. It loads the campaign as \<^verbatim>\<open>get_campaign\<close> does, failing with
  \<^verbatim>\<open>CampaignNotFound\<close> for an id out of range; what a message then assigns to a field of
  the campaign is written to the stored record.
\<close>

definition get_campaign_mut :: "inkfundme \<Rightarrow> u32 \<Rightarrow> campaign result" where
  "get_campaign_mut s campaign_id = get_campaign s campaign_id"

definition get_contribution :: "inkfundme \<Rightarrow> u32 \<Rightarrow> address \<Rightarrow> u256" where
  "get_contribution s campaign_id contributor =
     (case contributions s (campaign_id, contributor) of None \<Rightarrow> 0 | Some v \<Rightarrow> v)"

definition get_campaign_count :: "inkfundme \<Rightarrow> u32" where
  "get_campaign_count s = storage_vec_len (campaigns s)"

subsection \<open>The bodies of the messages\<close>

text \<open>
  What the Rust code of each message does to \<^verbatim>\<open>self\<close>, statement by statement: the
  storage paired with an error is the storage at the failing step, with the writes made
  before it. Events are emitted only on the path that returns \<^verbatim>\<open>Ok\<close> and touch no
  storage.
\<close>

definition create_campaign_body ::
  "env \<Rightarrow> string \<Rightarrow> string \<Rightarrow> u256 \<Rightarrow> u64 \<Rightarrow> inkfundme \<Rightarrow> u32 result \<times> inkfundme" where
  "create_campaign_body e title_arg description_arg goal_arg deadline_arg s =
     (if goal_arg = 0 \<or> deadline_arg \<le> block_timestamp e then (Err InvalidParameters, s)
      else
        let campaign_id = next_campaign_id s;
            c = \<lparr>ident = campaign_id, title = title_arg, description = description_arg,
                 goal = goal_arg, deadline = deadline_arg, owner = caller e,
                 raised = 0, completed = False\<rparr>
        in case storage_vec_push (campaigns s) c of
             None \<Rightarrow> (Panic, s)
           | Some cs \<Rightarrow>
               let s1 = s\<lparr>campaigns := cs\<rparr>
               in if next_campaign_id s1 = - 1 then (Panic, s1)
                  else (Ok campaign_id, s1\<lparr>next_campaign_id := next_campaign_id s1 + 1\<rparr>))"

definition contribute_body :: "env \<Rightarrow> u32 \<Rightarrow> u256 \<Rightarrow> inkfundme \<Rightarrow> unit result \<times> inkfundme" where
  "contribute_body e campaign_id amount s =
     (case get_campaign_mut s campaign_id of
        Err x \<Rightarrow> (Err x, s)
      | Panic \<Rightarrow> (Panic, s)
      | Ok c \<Rightarrow>
          if completed c then (Err CampaignCompleted, s)
          else if block_timestamp e > deadline c then (Err DeadlineReached, s)
          else
            case transfer_from (token_contract s) (account_id e) (caller e) (account_id e)
                   (unat amount) of
              Inl x \<Rightarrow> (Err x, s)
            | Inr t \<Rightarrow>
                let s1 = s\<lparr>token_contract := t\<rparr>
                in case checked_add (raised c) amount of
                     None \<Rightarrow> (Err Overflow, s1)
                   | Some r \<Rightarrow>
                       let s2 = s1\<lparr>campaigns :=
                                  (campaigns s1)[unat campaign_id := c\<lparr>raised := r\<rparr>]\<rparr>;
                           contribution =
                             (case contributions s2 (campaign_id, caller e) of
                                None \<Rightarrow> 0 | Some v \<Rightarrow> v)
                       in if unat contribution + unat amount < 2 ^ 256
                          then (Ok (), s2\<lparr>contributions := (contributions s2)
                                   ((campaign_id, caller e) \<mapsto> contribution + amount)\<rparr>)
                          else (Panic, s2))"

definition finalize_body :: "env \<Rightarrow> u32 \<Rightarrow> inkfundme \<Rightarrow> unit result \<times> inkfundme" where
  "finalize_body e campaign_id s =
     (case get_campaign_mut s campaign_id of
        Err x \<Rightarrow> (Err x, s)
      | Panic \<Rightarrow> (Panic, s)
      | Ok c \<Rightarrow>
          if caller e \<noteq> owner c then (Err OnlyOwner, s)
          else if completed c then (Err CampaignCompleted, s)
          else if block_timestamp e \<le> deadline c then (Err DeadlineNotReached, s)
          else
            let s1 = s\<lparr>campaigns :=
                       (campaigns s)[unat campaign_id := c\<lparr>completed := True\<rparr>]\<rparr>;
                success = (raised c \<ge> goal c)
            in if success
               then case transfer (token_contract s1) (account_id e) (owner c)
                           (unat (raised c)) of
                      Inl x \<Rightarrow> (Err x, s1)
                    | Inr t \<Rightarrow> (Ok (), s1\<lparr>token_contract := t\<rparr>)
               else (Ok (), s1))"

definition claim_refund_body :: "env \<Rightarrow> u32 \<Rightarrow> inkfundme \<Rightarrow> unit result \<times> inkfundme" where
  "claim_refund_body e campaign_id s =
     (case get_campaign_mut s campaign_id of
        Err x \<Rightarrow> (Err x, s)
      | Panic \<Rightarrow> (Panic, s)
      | Ok c \<Rightarrow>
          if \<not> completed c then (Err CampaignNotCompleted, s)
          else if raised c \<ge> goal c then (Err CampaignSuccessful, s)
          else
            let contribution =
                  (case contributions s (campaign_id, caller e) of None \<Rightarrow> 0 | Some v \<Rightarrow> v)
            in if contribution = 0 then (Err NoContribution, s)
               else
                 let s1 = s\<lparr>contributions := (contributions s)
                            ((campaign_id, caller e) \<mapsto> 0)\<rparr>
                 in case transfer (token_contract s1) (account_id e) (caller e)
                           (unat contribution) of
                      Inl x \<Rightarrow> (Err x, s1)
                    | Inr t \<Rightarrow> (Ok (), s1\<lparr>token_contract := t\<rparr>))"

subsection \<open>The messages as a caller sees them\<close>

text \<open>
  Modelled from the spec: the code that \<^verbatim>\<open>#[ink(message)]\<close> generates around a body is not
  among the sources. A failing operation makes no observable change of state: when the
  body of a message whose return type is \<^verbatim>\<open>Result\<close> returns \<^verbatim>\<open>Ok\<close> its writes are kept;
  when it returns \<^verbatim>\<open>Err\<close> the call is reverted, and with it every write of the body and
  of the calls it made to the token contract, and the error is handed to the caller; an
  abort reverts the call as well.
\<close>

definition ink_message ::
  "(inkfundme \<Rightarrow> 'a result \<times> inkfundme) \<Rightarrow> inkfundme \<Rightarrow> 'a result \<times> inkfundme" where
  "ink_message body s =
     (case body s of
        (Ok v, s') \<Rightarrow> (Ok v, s')
      | (Err x, _) \<Rightarrow> (Err x, s)
      | (Panic, _) \<Rightarrow> (Panic, s))"

definition create_campaign ::
  "env \<Rightarrow> string \<Rightarrow> string \<Rightarrow> u256 \<Rightarrow> u64 \<Rightarrow> inkfundme \<Rightarrow> u32 result \<times> inkfundme" where
  "create_campaign e title_arg description_arg goal_arg deadline_arg =
     ink_message (create_campaign_body e title_arg description_arg goal_arg deadline_arg)"

definition contribute :: "env \<Rightarrow> u32 \<Rightarrow> u256 \<Rightarrow> inkfundme \<Rightarrow> unit result \<times> inkfundme" where
  "contribute e campaign_id amount = ink_message (contribute_body e campaign_id amount)"

definition finalize :: "env \<Rightarrow> u32 \<Rightarrow> inkfundme \<Rightarrow> unit result \<times> inkfundme" where
  "finalize e campaign_id = ink_message (finalize_body e campaign_id)"

definition claim_refund :: "env \<Rightarrow> u32 \<Rightarrow> inkfundme \<Rightarrow> unit result \<times> inkfundme" where
  "claim_refund e campaign_id = ink_message (claim_refund_body e campaign_id)"

subsection \<open>Histories\<close>

text \<open>
  A history is a list of calls. Besides the four messages it may hold any change of the
  token ledger, which is a contract of its own that other parties use between two
  messages. A message that returns, with \<^verbatim>\<open>Ok\<close> or with \<^verbatim>\<open>Err\<close>, hands the storage the
  caller observes to the next call; a message that aborts ends the history.
\<close>

datatype call =
    CreateCampaign env string string u256 u64
  | Contribute env u32 u256
  | Finalize env u32
  | ClaimRefund env u32
  | TokenActivity token

definition settle :: "'a result \<times> inkfundme \<Rightarrow> inkfundme option" where
  "settle p = (case fst p of Panic \<Rightarrow> None | _ \<Rightarrow> Some (snd p))"

fun exec :: "call \<Rightarrow> inkfundme \<Rightarrow> inkfundme option" where
  "exec (CreateCampaign e t d g dl) s = settle (create_campaign e t d g dl s)"
| "exec (Contribute e campaign_id amount) s = settle (contribute e campaign_id amount s)"
| "exec (Finalize e campaign_id) s = settle (finalize e campaign_id s)"
| "exec (ClaimRefund e campaign_id) s = settle (claim_refund e campaign_id s)"
| "exec (TokenActivity t) s = Some (s\<lparr>token_contract := t\<rparr>)"

fun run :: "call list \<Rightarrow> inkfundme \<Rightarrow> inkfundme option" where
  "run [] s = Some s"
| "run (c # cs) s = (case exec c s of None \<Rightarrow> None | Some s' \<Rightarrow> run cs s')"

text \<open>The sum over all contributors of the entries of one campaign.\<close>

definition contribution_sum :: "inkfundme \<Rightarrow> u32 \<Rightarrow> nat" where
  "contribution_sum s campaign_id =
     (\<Sum>a \<in> (UNIV :: address set). unat (get_contribution s campaign_id a))"

subsection \<open>Invariants of the storage\<close>

text \<open>
  The store numbers its campaigns by position and \<^verbatim>\<open>next_campaign_id\<close> counts them.
\<close>

definition store_ok :: "inkfundme \<Rightarrow> bool" where
  "store_ok s \<longleftrightarrow>
     length (campaigns s) < 2 ^ 32
     \<and> unat (next_campaign_id s) = length (campaigns s)
     \<and> (\<forall>i < length (campaigns s). ident (campaigns s ! i) = of_nat i)"

text \<open>
  Only stored campaigns have entries in the ledger, and the entries of a campaign never
  add up to more than its \<^verbatim>\<open>raised\<close>.
\<close>

definition ledger_ok :: "inkfundme \<Rightarrow> bool" where
  "ledger_ok s \<longleftrightarrow>
     (\<forall>campaign_id a. length (campaigns s) \<le> unat campaign_id
          \<longrightarrow> contributions s (campaign_id, a) = None)
     \<and> (\<forall>campaign_id. unat campaign_id < length (campaigns s)
          \<longrightarrow> contribution_sum s campaign_id
                \<le> unat (raised (campaigns s ! unat campaign_id)))"

text \<open>Outside the set \<open>R\<close> of campaigns the entries add up to exactly \<^verbatim>\<open>raised\<close>.\<close>

definition balanced_outside :: "u32 set \<Rightarrow> inkfundme \<Rightarrow> bool" where
  "balanced_outside R s \<longleftrightarrow>
     (\<forall>campaign_id. unat campaign_id < length (campaigns s) \<and> campaign_id \<notin> R
          \<longrightarrow> contribution_sum s campaign_id
                = unat (raised (campaigns s ! unat campaign_id)))"

definition engine_inv :: "u32 set \<Rightarrow> inkfundme \<Rightarrow> bool" where
  "engine_inv R s \<longleftrightarrow> store_ok s \<and> ledger_ok s \<and> balanced_outside R s"

text \<open>
  The campaigns in which a history has cleared an entry: a \<^verbatim>\<open>claim_refund\<close> that gets past
  its checks sets the caller's entry, which is not zero, to zero.
\<close>

fun cleared_by :: "call \<Rightarrow> inkfundme \<Rightarrow> u32 set" where
  "cleared_by (ClaimRefund e campaign_id) s =
     (if get_contribution (snd (claim_refund e campaign_id s)) campaign_id (caller e)
           = get_contribution s campaign_id (caller e)
      then {} else {campaign_id})"
| "cleared_by _ s = {}"

fun refunded :: "call list \<Rightarrow> inkfundme \<Rightarrow> u32 set" where
  "refunded [] s = {}"
| "refunded (c # cs) s =
     (case exec c s of None \<Rightarrow> {} | Some s' \<Rightarrow> cleared_by c s \<union> refunded cs s')"

text \<open>
  A contributor's refund for a campaign is spent: the campaign is finalised as failed and
  the contributor's entry is zero.
\<close>

definition refund_spent :: "inkfundme \<Rightarrow> u32 \<Rightarrow> address \<Rightarrow> bool" where
  "refund_spent s campaign_id a \<longleftrightarrow>
     (case get_campaign s campaign_id of
        Ok c \<Rightarrow> completed c \<and> raised c < goal c \<and> get_contribution s campaign_id a = 0
      | _ \<Rightarrow> False)"

subsection \<open>Sample histories\<close>

text \<open>
  Alice opens a campaign with goal 1000 and deadline 100. Bob holds 2000 tokens and has
  approved the contract for them. In the first history he contributes 300 at time 50, Alice
  finalises at time 101, the goal is missed, and Bob claims his refund. In the second he
  contributes 1100 and the campaign ends over-funded.
\<close>

definition alice :: address where "alice = 1"
definition bob :: address where "bob = 2"
definition escrow :: address where "escrow = 3"

definition env_of :: "address \<Rightarrow> u64 \<Rightarrow> env" where
  "env_of who now = \<lparr>caller = who, block_timestamp = now, account_id = escrow\<rparr>"

definition demo_token :: token where
  "demo_token = \<lparr>balances = (\<lambda>_. 0)(bob := 2000),
                  allowances = (\<lambda>_. 0)((bob, escrow) := 2000)\<rparr>"

definition demo_campaign :: campaign where
  "demo_campaign = \<lparr>ident = 0, title = ''well'', description = ''a village well'',
                     goal = 1000, deadline = 100, owner = alice, raised = 0,
                     completed = False\<rparr>"

definition s_created :: inkfundme where
  "s_created = \<lparr>token_contract = demo_token, campaigns = [demo_campaign],
                 contributions = Map.empty, next_campaign_id = 1\<rparr>"

definition s_funded :: inkfundme where
  "s_funded = \<lparr>token_contract =
                  \<lparr>balances = (\<lambda>_. 0)(bob := 1700, escrow := 300),
                   allowances = (\<lambda>_. 0)((bob, escrow) := 1700)\<rparr>,
                campaigns = [demo_campaign\<lparr>raised := 300\<rparr>],
                contributions = [(0, bob) \<mapsto> 300], next_campaign_id = 1\<rparr>"

definition s_failed :: inkfundme where
  "s_failed = s_funded\<lparr>campaigns := [demo_campaign\<lparr>raised := 300, completed := True\<rparr>]\<rparr>"

definition s_refunded :: inkfundme where
  "s_refunded = \<lparr>token_contract =
                    \<lparr>balances = (\<lambda>_. 0)(bob := 2000, escrow := 0),
                     allowances = (\<lambda>_. 0)((bob, escrow) := 1700)\<rparr>,
                  campaigns = [demo_campaign\<lparr>raised := 300, completed := True\<rparr>],
                  contributions = [(0, bob) \<mapsto> 0], next_campaign_id = 1\<rparr>"

definition s_over :: inkfundme where
  "s_over = \<lparr>token_contract =
                \<lparr>balances = (\<lambda>_. 0)(bob := 900, escrow := 1100),
                 allowances = (\<lambda>_. 0)((bob, escrow) := 900)\<rparr>,
              campaigns = [demo_campaign\<lparr>raised := 1100\<rparr>],
              contributions = [(0, bob) \<mapsto> 1100], next_campaign_id = 1\<rparr>"

definition s_paid :: inkfundme where
  "s_paid = \<lparr>token_contract =
                \<lparr>balances = (\<lambda>_. 0)(bob := 900, escrow := 0, alice := 1100),
                 allowances = (\<lambda>_. 0)((bob, escrow) := 900)\<rparr>,
              campaigns = [demo_campaign\<lparr>raised := 1100, completed := True\<rparr>],
              contributions = [(0, bob) \<mapsto> 1100], next_campaign_id = 1\<rparr>"

text \<open>
  A store that is full: \<open>open_well\<close> called \<open>2\<^sup>3\<^sup>2 - 1\<close> times. \<open>s_numbered n\<close> is the
  storage after \<open>n\<close> such calls.
\<close>

definition open_well :: call where
  "open_well = CreateCampaign (env_of alice 0) ''well'' ''a village well'' 1000 100"

definition numbered :: "nat \<Rightarrow> campaign list" where
  "numbered n = map (\<lambda>i. demo_campaign\<lparr>ident := of_nat i\<rparr>) [0..<n]"

definition s_numbered :: "nat \<Rightarrow> inkfundme" where
  "s_numbered n = \<lparr>token_contract = demo_token, campaigns = numbered n,
                    contributions = Map.empty, next_campaign_id = of_nat n\<rparr>"

definition s_full :: inkfundme where
  "s_full = s_numbered 4294967295"

text \<open>
  A campaign whose \<^verbatim>\<open>raised\<close> is the largest \<^verbatim>\<open>U256\<close>. In the ledger \<open>rich_token\<close> Bob
  holds \<open>2\<^sup>2\<^sup>5\<^sup>6 - 1\<close> tokens, approved for the contract, and Carol holds 5. Bob contributes
  all of his; then Carol transfers her 5 tokens to Bob and Bob approves the contract for
  them, which leaves the ledger \<open>gift_token\<close>. Every balance is within the range of a
  \<^verbatim>\<open>U256\<close> and the contract's account holds all that was raised, but the ledger counts
  \<open>2\<^sup>2\<^sup>5\<^sup>6 + 4\<close> tokens in all, more than the supply of a ledger that keeps its total in a
  \<^verbatim>\<open>U256\<close>.
\<close>

definition carol :: address where "carol = 4"

definition u256_max :: u256 where
  "u256_max = - 1" \<comment> \<open>all bits set: \<open>2\<^sup>2\<^sup>5\<^sup>6 - 1\<close>\<close>


definition filled_token :: token where
  "filled_token = \<lparr>balances = (\<lambda>_. 0)(bob := 0, carol := 5, escrow := 2 ^ 256 - 1),
                    allowances = (\<lambda>_. 0)((bob, escrow) := 0)\<rparr>"

definition gift_token :: token where
  "gift_token = \<lparr>balances = (\<lambda>_. 0)(bob := 5, carol := 0, escrow := 2 ^ 256 - 1),
                  allowances = (\<lambda>_. 0)((bob, escrow) := 5)\<rparr>"


definition s_brim :: inkfundme where
  "s_brim = \<lparr>token_contract = gift_token,
              campaigns = [demo_campaign\<lparr>raised := u256_max\<rparr>],
              contributions = [(0, bob) \<mapsto> u256_max], next_campaign_id = 1\<rparr>"

section \<open>Properties\<close>

subsection \<open>Loading a campaign\<close>

lemma storage_vec_lookup:
  "campaign_id < storage_vec_len xs \<Longrightarrow> unat campaign_id < length xs"
  unfolding storage_vec_len_def
  by (metis le_unat_uoi linorder_not_less unat_mono)

lemma get_campaign_cases:
  "get_campaign s campaign_id =
     (if campaign_id < storage_vec_len (campaigns s)
      then Ok (campaigns s ! unat campaign_id) else Err CampaignNotFound)"
  using storage_vec_lookup [of campaign_id "campaigns s"]
  by (auto simp: get_campaign_def storage_vec_get_def not_le)

lemma transfer_error:
  "transfer t a b n = Inl x \<Longrightarrow> x = InsufficientBalance"
  by (auto simp: transfer_def Let_def split: if_splits)

lemma transfer_from_error:
  "transfer_from t sp a b n = Inl x \<Longrightarrow> x = InsufficientAllowance \<or> x = InsufficientBalance"
  by (auto simp: transfer_from_def dest: transfer_error split: if_splits sum.splits)

lemma get_campaign_s_created: "get_campaign s_created 0 = Ok demo_campaign"
  by (simp add: get_campaign_cases s_created_def storage_vec_len_def)

subsection \<open>What each message does to the storage\<close>

lemma contribution_sum_cong:
  "contributions s' = contributions s \<Longrightarrow> contribution_sum s' campaign_id = contribution_sum s campaign_id"
  by (simp add: contribution_sum_def get_contribution_def)

lemma sum_fun_upd:
  fixes h :: "address \<Rightarrow> nat"
  shows "(\<Sum>a\<in>UNIV. (h(x := v)) a) + h x = (\<Sum>a\<in>UNIV. h a) + v"
proof -
  have "(\<Sum>a\<in>UNIV. (h(x := v)) a) = v + (\<Sum>a\<in>UNIV - {x}. (h(x := v)) a)"
    by (subst sum.remove [of UNIV x]) simp_all
  moreover have "(\<Sum>a\<in>UNIV. h a) = h x + (\<Sum>a\<in>UNIV - {x}. h a)"
    by (subst sum.remove [of UNIV x]) simp_all
  moreover have "(\<Sum>a\<in>UNIV - {x}. (h(x := v)) a) = (\<Sum>a\<in>UNIV - {x}. h a)"
    by (rule sum.cong) simp_all
  ultimately show ?thesis by simp
qed

lemma contribution_sum_update_same:
  assumes "contributions s' = (contributions s)((campaign_id, a) \<mapsto> v)"
  shows "contribution_sum s' campaign_id + unat (get_contribution s campaign_id a)
           = contribution_sum s campaign_id + unat v"
proof -
  let ?h = "\<lambda>b. unat (get_contribution s campaign_id b)"
  have "(\<lambda>b. unat (get_contribution s' campaign_id b)) = ?h(a := unat v)"
    using assms by (auto simp: get_contribution_def fun_eq_iff)
  then have "contribution_sum s' campaign_id = (\<Sum>b\<in>UNIV. (?h(a := unat v)) b)"
    unfolding contribution_sum_def by (rule arg_cong)
  with sum_fun_upd [of ?h a "unat v"] show ?thesis
    unfolding contribution_sum_def by linarith
qed

lemma contribution_sum_update_other:
  assumes "contributions s' = (contributions s)((campaign_id, a) \<mapsto> v)"
    and "other \<noteq> campaign_id"
  shows "contribution_sum s' other = contribution_sum s other"
  using assms by (simp add: contribution_sum_def get_contribution_def)

lemma entry_le_sum:
  "unat (get_contribution s campaign_id a) \<le> contribution_sum s campaign_id"
  unfolding contribution_sum_def
  by (rule member_le_sum [of a UNIV "\<lambda>b. unat (get_contribution s campaign_id b)"]) simp_all

lemma get_campaign_Ok:
  "get_campaign s campaign_id = Ok c \<longleftrightarrow>
     campaign_id < storage_vec_len (campaigns s) \<and> c = campaigns s ! unat campaign_id"
  by (auto simp: get_campaign_cases)

lemma get_campaign_in_range:
  "get_campaign s campaign_id = Ok c \<Longrightarrow> unat campaign_id < length (campaigns s)"
  by (simp add: get_campaign_Ok storage_vec_lookup)

lemma get_campaign_Err:
  "get_campaign s campaign_id = Err x \<Longrightarrow> x = CampaignNotFound"
  by (simp add: get_campaign_cases split: if_splits)

lemma create_campaign_body_cases:
  assumes "create_campaign_body e t d g dl s = (r, s')" and "r \<noteq> Panic"
  shows "(r = Err InvalidParameters \<and> s' = s \<and> (g = 0 \<or> dl \<le> block_timestamp e))
       \<or> (r = Ok (next_campaign_id s) \<and> g \<noteq> 0 \<and> block_timestamp e < dl
           \<and> length (campaigns s) < 2 ^ 32 - 1 \<and> next_campaign_id s \<noteq> - 1
           \<and> s' = s\<lparr>campaigns := campaigns s @
                      [\<lparr>ident = next_campaign_id s, title = t, description = d, goal = g,
                        deadline = dl, owner = caller e, raised = 0, completed = False\<rparr>],
                    next_campaign_id := next_campaign_id s + 1\<rparr>)"
  using assms
  by (auto simp: create_campaign_body_def storage_vec_push_def Let_def not_le
           split: if_splits option.splits)

lemma contribute_body_cases:
  assumes "contribute_body e campaign_id amount s = (r, s')" and "r \<noteq> Panic"
  shows "(\<exists>x. r = Err x \<and> x \<noteq> Overflow \<and> s' = s)
       \<or> (\<exists>c t. r = Err Overflow \<and> get_campaign s campaign_id = Ok c \<and> \<not> completed c
             \<and> transfer_from (token_contract s) (account_id e) (caller e) (account_id e)
                  (unat amount) = Inr t
             \<and> \<not> unat (raised c) + unat amount < 2 ^ 256
             \<and> s' = s\<lparr>token_contract := t\<rparr>)
       \<or> (\<exists>c t. r = Ok () \<and> get_campaign s campaign_id = Ok c \<and> \<not> completed c
             \<and> block_timestamp e \<le> deadline c
             \<and> transfer_from (token_contract s) (account_id e) (caller e) (account_id e)
                  (unat amount) = Inr t
             \<and> unat (raised c) + unat amount < 2 ^ 256
             \<and> unat (get_contribution s campaign_id (caller e)) + unat amount < 2 ^ 256
             \<and> s' = s\<lparr>token_contract := t,
                      campaigns := (campaigns s)
                        [unat campaign_id := c\<lparr>raised := raised c + amount\<rparr>],
                      contributions := (contributions s)
                        ((campaign_id, caller e) \<mapsto>
                           get_contribution s campaign_id (caller e) + amount)\<rparr>)"
  using assms
  by (auto simp: contribute_body_def get_campaign_mut_def get_contribution_def checked_add_def
                 Let_def not_less
           dest: transfer_from_error get_campaign_Err
           split: result.splits if_splits sum.splits option.splits)

lemma finalize_body_cases:
  assumes "finalize_body e campaign_id s = (r, s')" and "r \<noteq> Panic"
  shows "(\<exists>x. r = Err x \<and> x \<noteq> InsufficientBalance \<and> s' = s)
       \<or> (\<exists>c. get_campaign s campaign_id = Ok c \<and> caller e = owner c \<and> \<not> completed c
             \<and> deadline c < block_timestamp e
             \<and> (if goal c \<le> raised c
                 then (case transfer (token_contract s) (account_id e) (owner c)
                              (unat (raised c)) of
                         Inl x \<Rightarrow> r = Err InsufficientBalance
                           \<and> s' = s\<lparr>campaigns := (campaigns s)
                                      [unat campaign_id := c\<lparr>completed := True\<rparr>]\<rparr>
                       | Inr t \<Rightarrow> r = Ok ()
                           \<and> s' = s\<lparr>token_contract := t, campaigns := (campaigns s)
                                      [unat campaign_id := c\<lparr>completed := True\<rparr>]\<rparr>)
                 else r = Ok ()
                      \<and> s' = s\<lparr>campaigns := (campaigns s)
                                 [unat campaign_id := c\<lparr>completed := True\<rparr>]\<rparr>))"
  using assms
  by (auto simp: finalize_body_def get_campaign_mut_def Let_def not_le
           dest: transfer_error get_campaign_Err
           split: result.splits if_splits sum.splits)

lemma claim_refund_body_cases:
  assumes "claim_refund_body e campaign_id s = (r, s')" and "r \<noteq> Panic"
  shows "(\<exists>x. r = Err x \<and> x \<noteq> InsufficientBalance \<and> s' = s)
       \<or> (\<exists>c. get_campaign s campaign_id = Ok c \<and> completed c \<and> raised c < goal c
             \<and> get_contribution s campaign_id (caller e) \<noteq> 0
             \<and> (case transfer (token_contract s) (account_id e) (caller e)
                        (unat (get_contribution s campaign_id (caller e))) of
                   Inl x \<Rightarrow> r = Err InsufficientBalance
                     \<and> s' = s\<lparr>contributions := (contributions s)
                                ((campaign_id, caller e) \<mapsto> 0)\<rparr>
                 | Inr t \<Rightarrow> r = Ok ()
                     \<and> s' = s\<lparr>token_contract := t, contributions := (contributions s)
                                ((campaign_id, caller e) \<mapsto> 0)\<rparr>))"
  using assms
  by (auto simp: claim_refund_body_def get_campaign_mut_def get_contribution_def Let_def not_le
           dest: transfer_error get_campaign_Err
           split: result.splits if_splits sum.splits)

lemma ink_message_cases:
  assumes "ink_message body s = (r, s')"
  obtains (commit) v where "r = Ok v" and "body s = (Ok v, s')"
    | (revert) x s'' where "r = Err x" and "s' = s" and "body s = (Err x, s'')"
    | (abort) s'' where "r = Panic" and "s' = s" and "body s = (Panic, s'')"
  using assms
  by (cases "body s"; cases "fst (body s)") (auto simp: ink_message_def)


lemma ink_message_Ok: "body s = (Ok v, s') \<Longrightarrow> ink_message body s = (Ok v, s')"
  by (simp add: ink_message_def)

lemma ink_message_same: "body s = (r, s) \<Longrightarrow> ink_message body s = (r, s)"
  by (cases r) (simp_all add: ink_message_def)

lemma ink_message_Err: "ink_message body s = (Err x, s') \<Longrightarrow> s' = s"
  by (erule ink_message_cases) simp_all

lemmas create_campaign_unfold = create_campaign_def ink_message_def create_campaign_body_def
lemmas contribute_unfold = contribute_def ink_message_def contribute_body_def
lemmas finalize_unfold = finalize_def ink_message_def finalize_body_def
lemmas claim_refund_unfold = claim_refund_def ink_message_def claim_refund_body_def

lemma create_campaign_cases:
  assumes "create_campaign e t d g dl s = (r, s')" and "r \<noteq> Panic"
  shows "(r = Err InvalidParameters \<and> s' = s \<and> (g = 0 \<or> dl \<le> block_timestamp e))
       \<or> (r = Ok (next_campaign_id s) \<and> g \<noteq> 0 \<and> block_timestamp e < dl
           \<and> length (campaigns s) < 2 ^ 32 - 1 \<and> next_campaign_id s \<noteq> - 1
           \<and> s' = s\<lparr>campaigns := campaigns s @
                      [\<lparr>ident = next_campaign_id s, title = t, description = d, goal = g,
                        deadline = dl, owner = caller e, raised = 0, completed = False\<rparr>],
                    next_campaign_id := next_campaign_id s + 1\<rparr>)"
proof -
  from assms(1) have "ink_message (create_campaign_body e t d g dl) s = (r, s')"
    by (simp add: create_campaign_def)
  then show ?thesis
  proof (cases rule: ink_message_cases)
    case (commit v)
    from create_campaign_body_cases [OF commit(2)] commit(1) show ?thesis by simp
  next
    case (revert x s'')
    from create_campaign_body_cases [OF revert(3)] revert(1,2) show ?thesis by auto
  next
    case (abort s'')
    with assms(2) show ?thesis by simp
  qed
qed

lemma contribute_cases:
  assumes "contribute e campaign_id amount s = (r, s')" and "r \<noteq> Panic"
  shows "(\<exists>x. r = Err x \<and> s' = s)
       \<or> (\<exists>c t. r = Ok () \<and> get_campaign s campaign_id = Ok c \<and> \<not> completed c
             \<and> block_timestamp e \<le> deadline c
             \<and> transfer_from (token_contract s) (account_id e) (caller e) (account_id e)
                  (unat amount) = Inr t
             \<and> unat (raised c) + unat amount < 2 ^ 256
             \<and> unat (get_contribution s campaign_id (caller e)) + unat amount < 2 ^ 256
             \<and> s' = s\<lparr>token_contract := t,
                      campaigns := (campaigns s)
                        [unat campaign_id := c\<lparr>raised := raised c + amount\<rparr>],
                      contributions := (contributions s)
                        ((campaign_id, caller e) \<mapsto>
                           get_contribution s campaign_id (caller e) + amount)\<rparr>)"
proof -
  from assms(1) have "ink_message (contribute_body e campaign_id amount) s = (r, s')"
    by (simp add: contribute_def)
  then show ?thesis
  proof (cases rule: ink_message_cases)
    case (commit v)
    from contribute_body_cases [OF commit(2)] commit(1) show ?thesis by simp
  next
    case (revert x s'')
    then show ?thesis by simp
  next
    case (abort s'')
    with assms(2) show ?thesis by simp
  qed
qed

lemma finalize_cases:
  assumes "finalize e campaign_id s = (r, s')" and "r \<noteq> Panic"
  shows "(\<exists>x. r = Err x \<and> s' = s)
       \<or> (\<exists>c. r = Ok () \<and> get_campaign s campaign_id = Ok c \<and> caller e = owner c
             \<and> \<not> completed c \<and> deadline c < block_timestamp e
             \<and> (if goal c \<le> raised c
                 then (case transfer (token_contract s) (account_id e) (owner c)
                              (unat (raised c)) of
                         Inl x \<Rightarrow> False
                       | Inr t \<Rightarrow>
                           s' = s\<lparr>token_contract := t, campaigns := (campaigns s)
                                    [unat campaign_id := c\<lparr>completed := True\<rparr>]\<rparr>)
                 else s' = s\<lparr>campaigns := (campaigns s)
                               [unat campaign_id := c\<lparr>completed := True\<rparr>]\<rparr>))"
proof -
  from assms(1) have "ink_message (finalize_body e campaign_id) s = (r, s')"
    by (simp add: finalize_def)
  then show ?thesis
  proof (cases rule: ink_message_cases)
    case (commit v)
    from finalize_body_cases [OF commit(2)] obtain c
      where "get_campaign s campaign_id = Ok c" "caller e = owner c" "\<not> completed c"
        "deadline c < block_timestamp e"
        "if goal c \<le> raised c
         then (case transfer (token_contract s) (account_id e) (owner c) (unat (raised c)) of
                 Inl x \<Rightarrow> False
               | Inr t \<Rightarrow>
                   s' = s\<lparr>token_contract := t, campaigns := (campaigns s)
                            [unat campaign_id := c\<lparr>completed := True\<rparr>]\<rparr>)
         else s' = s\<lparr>campaigns := (campaigns s)
                       [unat campaign_id := c\<lparr>completed := True\<rparr>]\<rparr>"
      by (auto split: if_splits sum.splits)
    with commit(1) show ?thesis by (intro disjI2 exI [of _ c]) simp
  next
    case (revert x s'')
    then show ?thesis by simp
  next
    case (abort s'')
    with assms(2) show ?thesis by simp
  qed
qed

lemma claim_refund_cases:
  assumes "claim_refund e campaign_id s = (r, s')" and "r \<noteq> Panic"
  shows "(\<exists>x. r = Err x \<and> s' = s)
       \<or> (\<exists>c. r = Ok () \<and> get_campaign s campaign_id = Ok c \<and> completed c
             \<and> raised c < goal c \<and> get_contribution s campaign_id (caller e) \<noteq> 0
             \<and> (case transfer (token_contract s) (account_id e) (caller e)
                        (unat (get_contribution s campaign_id (caller e))) of
                   Inl x \<Rightarrow> False
                 | Inr t \<Rightarrow>
                     s' = s\<lparr>token_contract := t, contributions := (contributions s)
                              ((campaign_id, caller e) \<mapsto> 0)\<rparr>))"
proof -
  from assms(1) have "ink_message (claim_refund_body e campaign_id) s = (r, s')"
    by (simp add: claim_refund_def)
  then show ?thesis
  proof (cases rule: ink_message_cases)
    case (commit v)
    from claim_refund_body_cases [OF commit(2)] obtain c
      where "get_campaign s campaign_id = Ok c" "completed c" "raised c < goal c"
        "get_contribution s campaign_id (caller e) \<noteq> 0"
        "case transfer (token_contract s) (account_id e) (caller e)
                (unat (get_contribution s campaign_id (caller e))) of
           Inl x \<Rightarrow> False
         | Inr t \<Rightarrow>
             s' = s\<lparr>token_contract := t, contributions := (contributions s)
                      ((campaign_id, caller e) \<mapsto> 0)\<rparr>"
      by (auto split: sum.splits)
    with commit(1) show ?thesis by (intro disjI2 exI [of _ c]) simp
  next
    case (revert x s'')
    then show ?thesis by simp
  next
    case (abort s'')
    with assms(2) show ?thesis by simp
  qed
qed

lemma inv_new: "engine_inv {} (new tok)"
  by (simp add: engine_inv_def store_ok_def ledger_ok_def balanced_outside_def new_def)

lemma inv_token: "engine_inv R s \<Longrightarrow> engine_inv R (s\<lparr>token_contract := t\<rparr>)"
  by (simp add: engine_inv_def store_ok_def ledger_ok_def balanced_outside_def
        contribution_sum_def get_contribution_def)

lemma inv_mono: "engine_inv R s \<Longrightarrow> R \<subseteq> R' \<Longrightarrow> engine_inv R' s"
  by (auto simp: engine_inv_def balanced_outside_def)

lemma unat_succ: "(x :: u32) \<noteq> - 1 \<Longrightarrow> unat (x + 1) = Suc (unat x)"
  using unatSuc [of x] by (simp add: add.commute eq_neg_iff_add_eq_0)

lemma no_entries_sum_zero:
  assumes "\<forall>a. contributions s (campaign_id, a) = None"
  shows "contribution_sum s campaign_id = 0"
  using assms by (simp add: contribution_sum_def get_contribution_def)

lemma inv_create_campaign:
  assumes "create_campaign e t d g dl s = (r, s')" and "r \<noteq> Panic" and "engine_inv R s"
  shows "engine_inv R s'"
proof -
  let ?c = "\<lparr>ident = next_campaign_id s, title = t, description = d, goal = g,
             deadline = dl, owner = caller e, raised = 0, completed = False\<rparr>"
  from create_campaign_cases [OF assms(1,2)]
  consider (unchanged) "s' = s"
    | (created) "length (campaigns s) < 2 ^ 32 - 1" "next_campaign_id s \<noteq> - 1"
        "s' = s\<lparr>campaigns := campaigns s @ [?c],
                next_campaign_id := next_campaign_id s + 1\<rparr>"
    by blast
  then show ?thesis
  proof cases
    case unchanged
    with assms(3) show ?thesis by simp
  next
    case created
    note room = created(1) and top = created(2) and s' = created(3)
    from assms(3) have st: "store_ok s" and le: "ledger_ok s" and ba: "balanced_outside R s"
      by (simp_all add: engine_inv_def)
    have next_eq: "next_campaign_id s = of_nat (length (campaigns s))"
    proof -
      have "of_nat (unat (next_campaign_id s)) = next_campaign_id s" by simp
      with st show ?thesis by (simp add: store_ok_def)
    qed
    have cs: "campaigns s' = campaigns s @ [?c]"
      and nx: "next_campaign_id s' = next_campaign_id s + 1"
      and co: "contributions s' = contributions s"
      by (simp_all add: s')
    have fresh: "contribution_sum s' campaign_id = 0"
      if "unat campaign_id = length (campaigns s)" for campaign_id
      using le that by (intro no_entries_sum_zero) (simp add: co ledger_ok_def)
    have same: "contribution_sum s' campaign_id = contribution_sum s campaign_id" for campaign_id
      by (rule contribution_sum_cong) (rule co)
    have "store_ok s'"
      using st room top next_eq
      by (auto simp: store_ok_def cs nx unat_succ nth_append less_Suc_eq)
    moreover have "ledger_ok s'"
      using le fresh
      by (auto simp: ledger_ok_def cs co same nth_append less_Suc_eq)
    moreover have "balanced_outside R s'"
      using ba fresh
      by (auto simp: balanced_outside_def cs same nth_append less_Suc_eq)
    ultimately show ?thesis by (simp add: engine_inv_def)
  qed
qed

lemma inv_contribute:
  assumes "contribute e campaign_id amount s = (r, s')" and "r \<noteq> Panic"
    and "engine_inv R s"
  shows "engine_inv R s'"
proof -
  from contribute_cases [OF assms(1,2)]
  consider (unchanged) "s' = s"
    | (paid) c t where "get_campaign s campaign_id = Ok c"
        "unat (raised c) + unat amount < 2 ^ 256"
        "unat (get_contribution s campaign_id (caller e)) + unat amount < 2 ^ 256"
        "s' = s\<lparr>token_contract := t,
                campaigns := (campaigns s)
                  [unat campaign_id := c\<lparr>raised := raised c + amount\<rparr>],
                contributions := (contributions s)
                  ((campaign_id, caller e) \<mapsto>
                     get_contribution s campaign_id (caller e) + amount)\<rparr>"
    by blast
  then show ?thesis
  proof cases
    case unchanged
    with assms(3) show ?thesis by simp
  next
    case paid
    let ?old = "get_contribution s campaign_id (caller e)"
    from assms(3) have st: "store_ok s" and le: "ledger_ok s" and ba: "balanced_outside R s"
      by (simp_all add: engine_inv_def)
    have range: "unat campaign_id < length (campaigns s)"
      and c: "c = campaigns s ! unat campaign_id"
      using paid(1) by (simp_all add: get_campaign_Ok storage_vec_lookup)
    have cs: "campaigns s' = (campaigns s)[unat campaign_id := c\<lparr>raised := raised c + amount\<rparr>]"
      and nx: "next_campaign_id s' = next_campaign_id s"
      and co: "contributions s' = (contributions s)((campaign_id, caller e) \<mapsto> ?old + amount)"
      by (simp_all add: paid(4))
    have raised': "unat (raised c + amount) = unat (raised c) + unat amount"
      using paid(2) by (simp add: unat_add_lem [THEN iffD1])
    have entry': "unat (?old + amount) = unat ?old + unat amount"
      using paid(3) by (simp add: unat_add_lem [THEN iffD1])
    have sum_same: "contribution_sum s' campaign_id = contribution_sum s campaign_id + unat amount"
      using contribution_sum_update_same [OF co] entry' by simp
    have sum_other: "contribution_sum s' other = contribution_sum s other"
      if "other \<noteq> campaign_id" for other
      using contribution_sum_update_other [OF co that] .
    have idx: "unat other = unat campaign_id \<longleftrightarrow> other = campaign_id" for other
      by (simp add: word_unat_eq_iff)
    have "store_ok s'"
      using st range c by (auto simp: store_ok_def cs nx nth_list_update)
    moreover have "ledger_ok s'"
      unfolding ledger_ok_def
    proof (intro conjI allI impI)
      fix other :: u32 and a :: address
      assume "length (campaigns s') \<le> unat other"
      with le range show "contributions s' (other, a) = None"
        by (auto simp: ledger_ok_def cs co)
    next
      fix other :: u32
      assume "unat other < length (campaigns s')"
      with le range c raised' sum_same sum_other [of other] idx [of other]
      show "contribution_sum s' other \<le> unat (raised (campaigns s' ! unat other))"
        by (cases "other = campaign_id") (auto simp: ledger_ok_def cs nth_list_update)
    qed
    moreover have "balanced_outside R s'"
      unfolding balanced_outside_def
    proof (intro allI impI)
      fix other :: u32
      assume "unat other < length (campaigns s') \<and> other \<notin> R"
      with ba range c raised' sum_same sum_other [of other] idx [of other]
      show "contribution_sum s' other = unat (raised (campaigns s' ! unat other))"
        by (cases "other = campaign_id") (auto simp: balanced_outside_def cs nth_list_update)
    qed
    ultimately show ?thesis by (simp add: engine_inv_def)
  qed
qed

lemma inv_finalize:
  assumes "finalize e campaign_id s = (r, s')" and "r \<noteq> Panic" and "engine_inv R s"
  shows "engine_inv R s'"
proof -
  from finalize_cases [OF assms(1,2)]
  consider (unchanged) "s' = s"
    | (closed) c t where "get_campaign s campaign_id = Ok c"
        "s' = s\<lparr>campaigns := (campaigns s)[unat campaign_id := c\<lparr>completed := True\<rparr>]\<rparr>
         \<or> s' = s\<lparr>token_contract := t,
                  campaigns := (campaigns s)[unat campaign_id := c\<lparr>completed := True\<rparr>]\<rparr>"
    by (auto split: if_splits sum.splits)
  then show ?thesis
  proof cases
    case unchanged
    with assms(3) show ?thesis by simp
  next
    case closed
    from assms(3) have st: "store_ok s" and le: "ledger_ok s" and ba: "balanced_outside R s"
      by (simp_all add: engine_inv_def)
    have range: "unat campaign_id < length (campaigns s)"
      and c: "c = campaigns s ! unat campaign_id"
      using closed(1) by (simp_all add: get_campaign_Ok storage_vec_lookup)
    have cs: "campaigns s' = (campaigns s)[unat campaign_id := c\<lparr>completed := True\<rparr>]"
      and nx: "next_campaign_id s' = next_campaign_id s"
      and co: "contributions s' = contributions s"
      using closed(2) by auto
    have same: "contribution_sum s' other = contribution_sum s other" for other
      by (rule contribution_sum_cong) (rule co)
    have "store_ok s'"
      using st range c by (auto simp: store_ok_def cs nx nth_list_update)
    moreover have "ledger_ok s'"
      using le range c by (auto simp: ledger_ok_def cs co same nth_list_update)
    moreover have "balanced_outside R s'"
      using ba range c by (auto simp: balanced_outside_def cs same nth_list_update)
    ultimately show ?thesis by (simp add: engine_inv_def)
  qed
qed

lemma inv_claim_refund:
  assumes "claim_refund e campaign_id s = (r, s')" and "r \<noteq> Panic" and "engine_inv R s"
  shows "engine_inv (R \<union> cleared_by (ClaimRefund e campaign_id) s) s'"
proof -
  from claim_refund_cases [OF assms(1,2)]
  consider (unchanged) "s' = s"
    | (cleared) "get_contribution s campaign_id (caller e) \<noteq> 0"
        "campaigns s' = campaigns s" "next_campaign_id s' = next_campaign_id s"
        "contributions s' = (contributions s)((campaign_id, caller e) \<mapsto> 0)"
    by (auto split: sum.splits)
  then show ?thesis
  proof cases
    case unchanged
    with assms(3) show ?thesis by (auto intro: inv_mono)
  next
    case cleared
    note cs = cleared(2) and nx = cleared(3) and co = cleared(4)
    from assms(3) have st: "store_ok s" and le: "ledger_ok s" and ba: "balanced_outside R s"
      by (simp_all add: engine_inv_def)
    have "get_contribution s' campaign_id (caller e) = 0"
      by (simp add: get_contribution_def co)
    with cleared(1) assms(1)
    have mark: "cleared_by (ClaimRefund e campaign_id) s = {campaign_id}"
      by simp
    have sum_same: "contribution_sum s' campaign_id \<le> contribution_sum s campaign_id"
      using contribution_sum_update_same [OF co] by simp
    have sum_other: "contribution_sum s' other = contribution_sum s other"
      if "other \<noteq> campaign_id" for other
      using contribution_sum_update_other [OF co that] .
    have "store_ok s'"
      using st by (simp add: store_ok_def cs nx)
    moreover have "ledger_ok s'"
      unfolding ledger_ok_def
    proof (intro conjI allI impI)
      fix other :: u32 and a :: address
      assume far: "length (campaigns s') \<le> unat other"
      show "contributions s' (other, a) = None"
      proof (cases "other = campaign_id")
        case True
        with far cleared(1) le show ?thesis
          by (auto simp: ledger_ok_def cs get_contribution_def)
      next
        case False
        with far le show ?thesis by (simp add: ledger_ok_def cs co)
      qed
    next
      fix other :: u32
      assume "unat other < length (campaigns s')"
      with le sum_same sum_other [of other]
      show "contribution_sum s' other \<le> unat (raised (campaigns s' ! unat other))"
        by (cases "other = campaign_id") (auto simp: ledger_ok_def cs intro: order_trans)
    qed
    moreover have "balanced_outside (R \<union> {campaign_id}) s'"
      using ba sum_other by (auto simp: balanced_outside_def cs)
    ultimately show ?thesis unfolding mark by (simp add: engine_inv_def)
  qed
qed

lemma settle_Some:
  "settle p = Some s' \<longleftrightarrow> fst p \<noteq> Panic \<and> snd p = s'"
  by (cases p) (auto simp: settle_def split: result.splits)

lemma inv_exec:
  assumes "exec c s = Some s'" and "engine_inv R s"
  shows "engine_inv (R \<union> cleared_by c s) s'"
proof (cases c)
  case (CreateCampaign e t d g dl)
  with assms show ?thesis
    by (cases "create_campaign e t d g dl s") (auto simp: settle_Some intro: inv_create_campaign)
next
  case (Contribute e campaign_id amount)
  with assms show ?thesis
    by (cases "contribute e campaign_id amount s") (auto simp: settle_Some intro: inv_contribute)
next
  case (Finalize e campaign_id)
  with assms show ?thesis
    by (cases "finalize e campaign_id s") (auto simp: settle_Some intro: inv_finalize)
next
  case (ClaimRefund e campaign_id)
  with assms(1) have "fst (claim_refund e campaign_id s) \<noteq> Panic"
    and "claim_refund e campaign_id s = (fst (claim_refund e campaign_id s), s')"
    by (auto simp: settle_Some)
  from inv_claim_refund [OF this(2,1) assms(2)] ClaimRefund show ?thesis by simp
next
  case (TokenActivity t)
  with assms show ?thesis by (auto intro: inv_token)
qed

lemma inv_run:
  assumes "run calls s = Some s'" and "engine_inv R s"
  shows "engine_inv (R \<union> refunded calls s) s'"
  using assms
proof (induction calls arbitrary: s R)
  case Nil
  then show ?case by simp
next
  case (Cons c calls)
  from Cons.prems(1) obtain s1 where step: "exec c s = Some s1" and rest: "run calls s1 = Some s'"
    by (auto split: option.splits)
  from Cons.IH [OF rest inv_exec [OF step Cons.prems(2)]] step
  show ?case by (simp add: Un_assoc)
qed

subsection \<open>The sample histories, step by step\<close>

lemmas demo_defs = alice_def bob_def carol_def escrow_def env_of_def demo_token_def
  demo_campaign_def s_created_def s_funded_def s_failed_def s_refunded_def s_over_def

lemmas message_defs = get_campaign_mut_def get_campaign_cases storage_vec_len_def
  storage_vec_push_def transfer_from_def transfer_def checked_add_def

lemma demo_create:
  "create_campaign (env_of alice 0) ''well'' ''a village well'' 1000 100 (new demo_token)
     = (Ok 0, s_created)"
  by (simp add: create_campaign_unfold new_def message_defs demo_defs)

lemma demo_contribute: "contribute (env_of bob 50) 0 300 s_created = (Ok (), s_funded)"
  by (simp add: contribute_unfold message_defs demo_defs fun_eq_iff)

lemma demo_finalize: "finalize (env_of alice 101) 0 s_funded = (Ok (), s_failed)"
  by (simp add: finalize_unfold message_defs demo_defs)

lemma demo_claim_refund: "claim_refund (env_of bob 200) 0 s_failed = (Ok (), s_refunded)"
  by (simp add: claim_refund_unfold message_defs demo_defs fun_eq_iff)

lemma demo_overfund: "contribute (env_of bob 50) 0 1100 s_created = (Ok (), s_over)"
  by (simp add: contribute_unfold message_defs demo_defs fun_eq_iff)

subsection \<open>Authorisation and deadlines\<close>

text \<open>
  C6. For an existing campaign and a caller other than its owner, \<^verbatim>\<open>finalize\<close> fails
  with \<^verbatim>\<open>OnlyOwner\<close> and leaves the storage as it was: whatever the block time is and
  whether the campaign is completed or not.
\<close>

theorem finalize_only_owner:
  assumes "get_campaign s campaign_id = Ok c" and "caller e \<noteq> owner c"
  shows "finalize e campaign_id s = (Err OnlyOwner, s)"
  using assms by (simp add: finalize_unfold get_campaign_mut_def)

theorem finalize_only_owner_witness:
  "get_campaign s_created 0 = Ok demo_campaign
   \<and> caller (env_of bob 500) \<noteq> owner demo_campaign
   \<and> finalize (env_of bob 500) 0 s_created = (Err OnlyOwner, s_created)"
proof -
  have other: "caller (env_of bob 500) \<noteq> owner demo_campaign"
    by (simp add: env_of_def demo_campaign_def alice_def bob_def)
  from finalize_only_owner [OF get_campaign_s_created other] get_campaign_s_created other
  show ?thesis by simp
qed

text \<open>
  C7. For an existing campaign that is not completed, \<^verbatim>\<open>contribute\<close> fails with
  \<^verbatim>\<open>DeadlineReached\<close> exactly when the block time is after the deadline, and
  \<^verbatim>\<open>finalize\<close>, called by the owner, fails with \<^verbatim>\<open>DeadlineNotReached\<close> exactly when the
  block time is at or before the deadline. At the deadline itself \<^verbatim>\<open>contribute\<close> gets
  past the deadline check and \<^verbatim>\<open>finalize\<close> is rejected.
\<close>

theorem deadline_checks_strict:
  assumes "get_campaign s campaign_id = Ok c" and "\<not> completed c"
  shows "(fst (contribute e campaign_id amount s) = Err DeadlineReached
            \<longleftrightarrow> deadline c < block_timestamp e)
       \<and> (caller e = owner c \<longrightarrow>
            (fst (finalize e campaign_id s) = Err DeadlineNotReached
               \<longleftrightarrow> block_timestamp e \<le> deadline c))
       \<and> (block_timestamp e = deadline c \<longrightarrow>
            fst (contribute e campaign_id amount s) \<noteq> Err DeadlineReached
            \<and> (caller e = owner c \<longrightarrow>
                 finalize e campaign_id s = (Err DeadlineNotReached, s)))"
  using assms
  by (auto simp: contribute_unfold finalize_unfold get_campaign_mut_def Let_def
           dest: transfer_from_error transfer_error
           split: sum.splits option.splits if_splits)

theorem deadline_checks_strict_witness:
  "get_campaign s_created 0 = Ok demo_campaign \<and> \<not> completed demo_campaign
   \<and> block_timestamp (env_of alice 100) = deadline demo_campaign
   \<and> caller (env_of alice 100) = owner demo_campaign
   \<and> fst (contribute (env_of alice 100) 0 5 s_created) \<noteq> Err DeadlineReached
   \<and> finalize (env_of alice 100) 0 s_created = (Err DeadlineNotReached, s_created)
   \<and> fst (contribute (env_of alice 101) 0 5 s_created) = Err DeadlineReached
   \<and> fst (finalize (env_of alice 101) 0 s_created) \<noteq> Err DeadlineNotReached"
proof -
  have active: "\<not> completed demo_campaign"
    by (simp add: demo_campaign_def)
  have at: "block_timestamp (env_of alice 100) = deadline demo_campaign"
    and own: "caller (env_of alice 100) = owner demo_campaign"
    and own': "caller (env_of alice 101) = owner demo_campaign"
    and late: "deadline demo_campaign < block_timestamp (env_of alice 101)"
    by (simp_all add: env_of_def demo_campaign_def)
  from deadline_checks_strict [OF get_campaign_s_created active, of "env_of alice 100" 5]
       deadline_checks_strict [OF get_campaign_s_created active, of "env_of alice 101" 5]
       get_campaign_s_created active at own own' late
  show ?thesis by simp
qed

subsection \<open>Reachable states\<close>

lemma reachable_inv:
  assumes "run calls (new tok) = Some s"
  shows "engine_inv (refunded calls (new tok)) s"
  using inv_run [OF assms inv_new] by simp

lemma demo_run_funded:
  "run [CreateCampaign (env_of alice 0) ''well'' ''a village well'' 1000 100,
        Contribute (env_of bob 50) 0 300] (new demo_token) = Some s_funded"
  by (simp add: demo_create demo_contribute settle_def)

lemma demo_refunded_none:
  "refunded [CreateCampaign (env_of alice 0) ''well'' ''a village well'' 1000 100,
        Contribute (env_of bob 50) 0 300] (new demo_token) = {}"
  by (simp add: demo_create demo_contribute settle_def)

lemma get_campaign_s_funded: "get_campaign s_funded 0 = Ok (demo_campaign\<lparr>raised := 300\<rparr>)"
  by (simp add: get_campaign_cases s_funded_def storage_vec_len_def)

lemma demo_sum_refunded: "contribution_sum s_refunded 0 = 0"
  by (simp add: contribution_sum_def get_contribution_def s_refunded_def)

lemma demo_raised_refunded: "unat (raised (campaigns s_refunded ! 0)) = 300"
  by (simp add: s_refunded_def demo_campaign_def)

text \<open>
  C1, as the code has it. In every state that a history of calls reaches from the empty
  store, the entries of a stored campaign add up to at most its \<^verbatim>\<open>raised\<close>, and to exactly
  \<^verbatim>\<open>raised\<close> for every campaign in which no \<^verbatim>\<open>claim_refund\<close> of the history has cleared an
  entry. (\<^verbatim>\<open>claim_refund\<close> zeroes the entry and leaves \<^verbatim>\<open>raised\<close> as it is.)
\<close>

theorem contributions_match_raised:
  assumes "run calls (new tok) = Some s" and "get_campaign s campaign_id = Ok c"
  shows "contribution_sum s campaign_id \<le> unat (raised c)
       \<and> (campaign_id \<notin> refunded calls (new tok)
            \<longrightarrow> contribution_sum s campaign_id = unat (raised c))"
proof -
  from reachable_inv [OF assms(1)]
  have le: "ledger_ok s" and ba: "balanced_outside (refunded calls (new tok)) s"
    by (simp_all add: engine_inv_def)
  from assms(2) have range: "unat campaign_id < length (campaigns s)"
    and c: "c = campaigns s ! unat campaign_id"
    by (simp_all add: get_campaign_Ok storage_vec_lookup)
  from le range c have "contribution_sum s campaign_id \<le> unat (raised c)"
    by (simp add: ledger_ok_def)
  moreover from ba range c
  have "campaign_id \<notin> refunded calls (new tok)
          \<Longrightarrow> contribution_sum s campaign_id = unat (raised c)"
    by (simp add: balanced_outside_def)
  ultimately show ?thesis by blast
qed

theorem contributions_match_raised_witness:
  "run [CreateCampaign (env_of alice 0) ''well'' ''a village well'' 1000 100,
        Contribute (env_of bob 50) 0 300] (new demo_token) = Some s_funded
   \<and> get_campaign s_funded 0 = Ok (demo_campaign\<lparr>raised := 300\<rparr>)
   \<and> 0 \<notin> refunded [CreateCampaign (env_of alice 0) ''well'' ''a village well'' 1000 100,
                    Contribute (env_of bob 50) 0 300] (new demo_token)
   \<and> contribution_sum s_funded 0 = 300"
  using contributions_match_raised [OF demo_run_funded get_campaign_s_funded]
    demo_run_funded get_campaign_s_funded demo_refunded_none
  by simp

text \<open>
  C1 as stated fails after a refund: four successful calls reach a state in which Bob's
  entry, the only one, is zero while \<^verbatim>\<open>raised\<close> is still 300.
\<close>

theorem sum_below_raised_after_refund:
  "create_campaign (env_of alice 0) ''well'' ''a village well'' 1000 100 (new demo_token)
     = (Ok 0, s_created)
   \<and> contribute (env_of bob 50) 0 300 s_created = (Ok (), s_funded)
   \<and> finalize (env_of alice 101) 0 s_funded = (Ok (), s_failed)
   \<and> claim_refund (env_of bob 200) 0 s_failed = (Ok (), s_refunded)
   \<and> contribution_sum s_refunded 0 = 0
   \<and> unat (raised (campaigns s_refunded ! 0)) = 300
   \<and> contribution_sum s_refunded 0 \<noteq> unat (raised (campaigns s_refunded ! 0))"
  by (simp only: demo_create demo_contribute demo_finalize demo_claim_refund
        demo_sum_refunded demo_raised_refunded) simp

text \<open>
  C10. In every reachable state \<^verbatim>\<open>next_campaign_id\<close> is the number of stored campaigns,
  which \<^verbatim>\<open>get_campaign_count\<close> returns; the campaign at position \<open>i\<close> has id \<open>i\<close>;
  \<^verbatim>\<open>get_campaign\<close> succeeds exactly for the ids below the count, and the record it returns
  carries the id asked for.
\<close>

theorem ids_are_positions:
  assumes "run calls (new tok) = Some s"
  shows "unat (next_campaign_id s) = length (campaigns s)
       \<and> next_campaign_id s = get_campaign_count s
       \<and> (\<forall>i < length (campaigns s). ident (campaigns s ! i) = of_nat i)
       \<and> (\<forall>campaign_id. (\<exists>c. get_campaign s campaign_id = Ok c)
              \<longleftrightarrow> campaign_id < get_campaign_count s)
       \<and> (\<forall>campaign_id c. get_campaign s campaign_id = Ok c \<longrightarrow> ident c = campaign_id)"
proof -
  from reachable_inv [OF assms] have st: "store_ok s"
    by (simp add: engine_inv_def)
  have count: "next_campaign_id s = get_campaign_count s"
  proof -
    have "of_nat (unat (next_campaign_id s)) = next_campaign_id s" by simp
    with st show ?thesis by (simp add: store_ok_def get_campaign_count_def storage_vec_len_def)
  qed
  have "ident c = campaign_id" if "get_campaign s campaign_id = Ok c" for campaign_id c
  proof -
    from that have "unat campaign_id < length (campaigns s)"
      and "c = campaigns s ! unat campaign_id"
      by (simp_all add: get_campaign_Ok storage_vec_lookup)
    with st have "ident c = of_nat (unat campaign_id)" by (simp add: store_ok_def)
    then show ?thesis by simp
  qed
  moreover have "(\<exists>c. get_campaign s campaign_id = Ok c) \<longleftrightarrow> campaign_id < get_campaign_count s"
    for campaign_id
    by (simp add: get_campaign_cases get_campaign_count_def)
  moreover from st have "unat (next_campaign_id s) = length (campaigns s)"
    and "\<forall>i < length (campaigns s). ident (campaigns s ! i) = of_nat i"
    by (simp_all add: store_ok_def)
  ultimately show ?thesis using count by blast
qed

theorem ids_are_positions_witness:
  "run [CreateCampaign (env_of alice 0) ''well'' ''a village well'' 1000 100,
        Contribute (env_of bob 50) 0 300] (new demo_token) = Some s_funded
   \<and> unat (next_campaign_id s_funded) = length (campaigns s_funded)
   \<and> get_campaign_count s_funded = 1
   \<and> ident (campaigns s_funded ! 0) = 0
   \<and> (0 :: u32) < get_campaign_count s_funded
   \<and> get_campaign s_funded 0 = Ok (demo_campaign\<lparr>raised := 300\<rparr>)
   \<and> ident (demo_campaign\<lparr>raised := 300\<rparr>) = 0
   \<and> \<not> (1 :: u32) < get_campaign_count s_funded
   \<and> get_campaign s_funded 1 = Err CampaignNotFound"
proof -
  have nf: "get_campaign s_funded 1 = Err CampaignNotFound"
    and cnt: "get_campaign_count s_funded = 1"
    by (simp_all add: get_campaign_cases get_campaign_count_def storage_vec_len_def s_funded_def)
  have fields: "unat (next_campaign_id s_funded) = length (campaigns s_funded)"
    "ident (campaigns s_funded ! 0) = 0"
    by (simp_all add: s_funded_def demo_campaign_def)
  note pos = ids_are_positions [OF demo_run_funded]
  from pos have "(\<exists>c. get_campaign s_funded 0 = Ok c) \<longleftrightarrow> 0 < get_campaign_count s_funded"
    by blast
  with get_campaign_s_funded have "0 < get_campaign_count s_funded" by simp
  moreover from pos get_campaign_s_funded have "ident (demo_campaign\<lparr>raised := 300\<rparr>) = 0"
    by blast
  ultimately show ?thesis
    using demo_run_funded get_campaign_s_funded nf cnt fields by simp
qed

subsection \<open>What one call may change\<close>

lemma get_campaign_cong:
  "campaigns s' = campaigns s \<Longrightarrow> get_campaign s' campaign_id = get_campaign s campaign_id"
  by (simp add: get_campaign_cases)

lemma storage_vec_len_grows:
  assumes "length xs < 2 ^ 32 - 1" and "campaign_id < storage_vec_len xs"
  shows "campaign_id < storage_vec_len (xs @ [x])"
proof -
  from assms(2) have "unat campaign_id < length xs" by (rule storage_vec_lookup)
  moreover have "unat (of_nat (Suc (length xs)) :: u32) = Suc (length xs)"
    unfolding unat_of_nat using assms(1) by simp
  moreover have "storage_vec_len (xs @ [x]) = of_nat (Suc (length xs))"
    unfolding storage_vec_len_def by simp
  ultimately show ?thesis
    by (simp only: word_less_nat_alt)
qed

lemma get_campaign_update:
  assumes "get_campaign s campaign_id = Ok c" and "campaigns s' = (campaigns s)[unat other := x]"
  shows "get_campaign s' campaign_id = Ok (if other = campaign_id then x else c)"
proof -
  from assms(1) have "unat campaign_id < length (campaigns s)"
    and "campaign_id < storage_vec_len (campaigns s)" and "c = campaigns s ! unat campaign_id"
    by (simp_all add: get_campaign_Ok storage_vec_lookup)
  then show ?thesis
    by (simp add: get_campaign_cases assms(2) storage_vec_len_def nth_list_update
          word_unat_eq_iff)
qed

lemma exec_campaigns:
  assumes "exec call s = Some s'" and "get_campaign s campaign_id = Ok c"
  shows "get_campaign s' campaign_id = Ok c
       \<or> (\<exists>e amount. call = Contribute e campaign_id amount \<and> \<not> completed c
             \<and> get_campaign s' campaign_id = Ok (c\<lparr>raised := raised c + amount\<rparr>))
       \<or> (\<exists>e. call = Finalize e campaign_id \<and> \<not> completed c
             \<and> get_campaign s' campaign_id = Ok (c\<lparr>completed := True\<rparr>))"
proof (cases call)
  case (CreateCampaign e t d g dl)
  with assms(1) have "create_campaign e t d g dl s = (fst (create_campaign e t d g dl s), s')"
    and "fst (create_campaign e t d g dl s) \<noteq> Panic"
    by (auto simp: settle_Some)
  from create_campaign_cases [OF this]
  consider "s' = s"
    | x where "length (campaigns s) < 2 ^ 32 - 1" "campaigns s' = campaigns s @ [x]"
    by auto
  then have "get_campaign s' campaign_id = Ok c"
  proof cases
    case 1
    with assms(2) show ?thesis by simp
  next
    case 2
    from assms(2) have "campaign_id < storage_vec_len (campaigns s)"
      and "c = campaigns s ! unat campaign_id"
      by (simp_all add: get_campaign_Ok)
    with storage_vec_len_grows [OF 2(1) this(1), of x] storage_vec_lookup [OF this(1)]
    show ?thesis by (simp add: get_campaign_cases 2(2) nth_append)
  qed
  then show ?thesis ..
next
  case (Contribute e other amount)
  with assms(1) have "contribute e other amount s = (fst (contribute e other amount s), s')"
    and "fst (contribute e other amount s) \<noteq> Panic"
    by (auto simp: settle_Some)
  from contribute_cases [OF this]
  consider "campaigns s' = campaigns s"
    | c0 where "get_campaign s other = Ok c0" "\<not> completed c0"
        "campaigns s' = (campaigns s)[unat other := c0\<lparr>raised := raised c0 + amount\<rparr>]"
    by auto
  then show ?thesis
  proof cases
    case 1
    from get_campaign_cong [OF this] assms(2) show ?thesis by simp
  next
    case 2
    from get_campaign_update [OF assms(2) 2(3)] 2(1,2) assms(2) Contribute
    show ?thesis by (cases "other = campaign_id") auto
  qed
next
  case (Finalize e other)
  with assms(1) have "finalize e other s = (fst (finalize e other s), s')"
    and "fst (finalize e other s) \<noteq> Panic"
    by (auto simp: settle_Some)
  from finalize_cases [OF this]
  consider "campaigns s' = campaigns s"
    | c0 where "get_campaign s other = Ok c0" "\<not> completed c0"
        "campaigns s' = (campaigns s)[unat other := c0\<lparr>completed := True\<rparr>]"
    by (auto split: if_splits sum.splits)
  then show ?thesis
  proof cases
    case 1
    from get_campaign_cong [OF this] assms(2) show ?thesis by simp
  next
    case 2
    from get_campaign_update [OF assms(2) 2(3)] 2(1,2) assms(2) Finalize
    show ?thesis by (cases "other = campaign_id") auto
  qed
next
  case (ClaimRefund e other)
  with assms(1) have "claim_refund e other s = (fst (claim_refund e other s), s')"
    and "fst (claim_refund e other s) \<noteq> Panic"
    by (auto simp: settle_Some)
  from claim_refund_cases [OF this] have "campaigns s' = campaigns s"
    by (auto split: sum.splits)
  from get_campaign_cong [OF this] assms(2) show ?thesis by simp
next
  case (TokenActivity t)
  with assms(1) have "campaigns s' = campaigns s" by auto
  from get_campaign_cong [OF this] assms(2) show ?thesis by simp
qed

lemma exec_contributions:
  assumes "exec call s = Some s'"
  shows "contributions s' = contributions s
       \<or> (\<exists>e campaign_id amount c. call = Contribute e campaign_id amount
             \<and> get_campaign s campaign_id = Ok c \<and> \<not> completed c
             \<and> contributions s' = (contributions s)((campaign_id, caller e) \<mapsto>
                  get_contribution s campaign_id (caller e) + amount))
       \<or> (\<exists>e campaign_id. call = ClaimRefund e campaign_id
             \<and> contributions s' = (contributions s)((campaign_id, caller e) \<mapsto> 0))"
proof (cases call)
  case (CreateCampaign e t d g dl)
  with assms(1) have "create_campaign e t d g dl s = (fst (create_campaign e t d g dl s), s')"
    and "fst (create_campaign e t d g dl s) \<noteq> Panic"
    by (auto simp: settle_Some)
  from create_campaign_cases [OF this] show ?thesis by auto
next
  case (Contribute e other amount)
  with assms(1) have "contribute e other amount s = (fst (contribute e other amount s), s')"
    and "fst (contribute e other amount s) \<noteq> Panic"
    by (auto simp: settle_Some)
  from contribute_cases [OF this] Contribute show ?thesis by auto
next
  case (Finalize e other)
  with assms(1) have "finalize e other s = (fst (finalize e other s), s')"
    and "fst (finalize e other s) \<noteq> Panic"
    by (auto simp: settle_Some)
  from finalize_cases [OF this] show ?thesis by (auto split: if_splits sum.splits)
next
  case (ClaimRefund e other)
  with assms(1) have "claim_refund e other s = (fst (claim_refund e other s), s')"
    and "fst (claim_refund e other s) \<noteq> Panic"
    by (auto simp: settle_Some)
  from claim_refund_cases [OF this] ClaimRefund show ?thesis by (auto split: sum.splits)
next
  case (TokenActivity t)
  with assms show ?thesis by auto
qed

subsection \<open>Refunds are paid once\<close>

lemma get_contribution_cong:
  "contributions s' = contributions s \<Longrightarrow> get_contribution s' = get_contribution s"
  by (simp add: get_contribution_def fun_eq_iff)

lemma refund_spent_iff:
  "refund_spent s campaign_id a \<longleftrightarrow>
     (\<exists>c. get_campaign s campaign_id = Ok c \<and> completed c \<and> raised c < goal c
          \<and> get_contribution s campaign_id a = 0)"
  by (auto simp: refund_spent_def split: result.splits)

lemma refund_spent_exec:
  assumes "exec call s = Some s'" and "refund_spent s campaign_id a"
  shows "refund_spent s' campaign_id a"
proof -
  from assms(2) obtain c where c: "get_campaign s campaign_id = Ok c" "completed c"
    "raised c < goal c" and zero: "get_contribution s campaign_id a = 0"
    unfolding refund_spent_iff by blast
  have c': "get_campaign s' campaign_id = Ok c"
    using exec_campaigns [OF assms(1) c(1)] c(2) by auto
  from exec_contributions [OF assms(1)]
  have "get_contribution s' campaign_id a = 0"
  proof (elim disjE exE conjE)
    assume "contributions s' = contributions s"
    from get_contribution_cong [OF this] zero show ?thesis by simp
  next
    fix e :: env and other amount c0
    assume c0: "get_campaign s other = Ok c0" "\<not> completed c0"
      and upd: "contributions s' = (contributions s)((other, caller e) \<mapsto>
                  get_contribution s other (caller e) + amount)"
    have "other \<noteq> campaign_id"
    proof
      assume "other = campaign_id"
      with c0(1) c(1) have "c0 = c" by simp
      with c0(2) c(2) show False by simp
    qed
    with zero show ?thesis
      unfolding get_contribution_def upd by simp
  next
    fix e :: env and other
    assume upd: "contributions s' = (contributions s)((other, caller e) \<mapsto> 0)"
    from zero show ?thesis
      unfolding get_contribution_def upd by (simp split: if_splits)
  qed
  with c' c(2,3) show ?thesis unfolding refund_spent_iff by blast
qed

lemma refund_spent_run:
  assumes "run calls s = Some s'" and "refund_spent s campaign_id a"
  shows "refund_spent s' campaign_id a"
  using assms
proof (induction calls arbitrary: s)
  case Nil
  then show ?case by simp
next
  case (Cons call calls)
  from Cons.prems(1) obtain s1 where "exec call s = Some s1" and "run calls s1 = Some s'"
    by (auto split: option.splits)
  with Cons.IH refund_spent_exec Cons.prems(2) show ?case by blast
qed

lemma refund_spent_rejects:
  assumes "refund_spent s campaign_id (caller e)"
  shows "claim_refund e campaign_id s = (Err NoContribution, s)"
  using assms
  by (auto simp: refund_spent_iff claim_refund_unfold get_campaign_mut_def get_contribution_def)

lemma claim_refund_Ok:
  assumes "claim_refund e campaign_id s = (Ok (), s')"
  shows "\<exists>c t. get_campaign s campaign_id = Ok c \<and> completed c \<and> raised c < goal c
           \<and> get_contribution s campaign_id (caller e) \<noteq> 0
           \<and> transfer (token_contract s) (account_id e) (caller e)
                (unat (get_contribution s campaign_id (caller e))) = Inr t
           \<and> s' = s\<lparr>token_contract := t,
                    contributions := (contributions s)((campaign_id, caller e) \<mapsto> 0)\<rparr>"
  using claim_refund_cases [OF assms] by (auto split: sum.splits)

lemma claim_refund_lowers_sum:
  assumes "claim_refund e campaign_id s = (Ok (), s')"
  shows "campaigns s' = campaigns s"
    and "contribution_sum s' campaign_id + unat (get_contribution s campaign_id (caller e))
           = contribution_sum s campaign_id"
proof -
  from claim_refund_Ok [OF assms] obtain t
    where s': "s' = s\<lparr>token_contract := t,
                      contributions := (contributions s)((campaign_id, caller e) \<mapsto> 0)\<rparr>"
    by blast
  then show "campaigns s' = campaigns s" by simp
  from s' have "contributions s' = (contributions s)((campaign_id, caller e) \<mapsto> 0)"
    by simp
  from contribution_sum_update_same [OF this] show
    "contribution_sum s' campaign_id + unat (get_contribution s campaign_id (caller e))
       = contribution_sum s campaign_id"
    by simp
qed

text \<open>
  C3. A successful \<^verbatim>\<open>claim_refund\<close> is possible only for a campaign that is completed with
  \<^verbatim>\<open>raised\<close> below \<^verbatim>\<open>goal\<close>; it leaves the caller's entry at zero and the token ledger
  as the transfer of the full recorded contribution leaves it. After it, and after any
  further history of calls, a \<^verbatim>\<open>claim_refund\<close> by the same contributor for the same campaign
  fails with \<^verbatim>\<open>NoContribution\<close> and changes nothing.
\<close>

theorem second_refund_rejected:
  assumes "claim_refund e campaign_id s = (Ok (), s1)"
    and "run calls s1 = Some s2"
    and "caller e' = caller e"
  shows "(\<exists>c. get_campaign s campaign_id = Ok c \<and> completed c \<and> raised c < goal c)
       \<and> contributions s1 (campaign_id, caller e) = Some 0
       \<and> transfer (token_contract s) (account_id e) (caller e)
            (unat (get_contribution s campaign_id (caller e))) = Inr (token_contract s1)
       \<and> claim_refund e' campaign_id s2 = (Err NoContribution, s2)"
proof -
  from claim_refund_Ok [OF assms(1)] obtain c t
    where c: "get_campaign s campaign_id = Ok c" "completed c" "raised c < goal c"
      and t: "transfer (token_contract s) (account_id e) (caller e)
                (unat (get_contribution s campaign_id (caller e))) = Inr t"
      and s1: "s1 = s\<lparr>token_contract := t,
                      contributions := (contributions s)((campaign_id, caller e) \<mapsto> 0)\<rparr>"
    by blast
  from s1 have "campaigns s1 = campaigns s" by simp
  from get_campaign_cong [OF this] c(1) have "get_campaign s1 campaign_id = Ok c" by simp
  moreover from s1 have "get_contribution s1 campaign_id (caller e) = 0"
    by (simp add: get_contribution_def)
  ultimately have "refund_spent s1 campaign_id (caller e)"
    using c(2,3) by (auto simp: refund_spent_iff)
  from refund_spent_run [OF assms(2) this] assms(3)
  have "claim_refund e' campaign_id s2 = (Err NoContribution, s2)"
    by (simp add: refund_spent_rejects)
  with c t s1 show ?thesis by auto
qed

lemma demo_retry: "contribute (env_of bob 60) 0 5 s_refunded = (Err CampaignCompleted, s_refunded)"
  by (simp add: contribute_unfold message_defs demo_defs)

theorem second_refund_rejected_witness:
  "claim_refund (env_of bob 200) 0 s_failed = (Ok (), s_refunded)
   \<and> run [Contribute (env_of bob 60) 0 5] s_refunded = Some s_refunded
   \<and> caller (env_of bob 300) = caller (env_of bob 200)
   \<and> contributions s_refunded (0, bob) = Some 0
   \<and> claim_refund (env_of bob 300) 0 s_refunded = (Err NoContribution, s_refunded)"
proof -
  have again: "run [Contribute (env_of bob 60) 0 5] s_refunded = Some s_refunded"
    by (simp add: demo_retry settle_def)
  have same: "caller (env_of bob 300) = caller (env_of bob 200)"
    by (simp add: env_of_def)
  from second_refund_rejected [OF demo_claim_refund again same] demo_claim_refund again same
  show ?thesis by (simp add: env_of_def)
qed

subsection \<open>Completion is final\<close>

lemma finalize_completed:
  assumes "get_campaign s campaign_id = Ok c" and "completed c"
  shows "finalize e campaign_id s
           = (Err (if caller e = owner c then CampaignCompleted else OnlyOwner), s)"
  using assms by (simp add: finalize_unfold get_campaign_mut_def)

lemma completed_exec:
  assumes "exec call s = Some s'" and "get_campaign s campaign_id = Ok c"
  shows "\<exists>c'. get_campaign s' campaign_id = Ok c' \<and> (completed c \<longrightarrow> completed c')
           \<and> ((\<forall>e. call \<noteq> Finalize e campaign_id) \<longrightarrow> completed c' = completed c)"
  using exec_campaigns [OF assms] by auto

lemma completed_run:
  assumes "run calls s = Some s'" and "get_campaign s campaign_id = Ok c" and "completed c"
  shows "\<exists>c'. get_campaign s' campaign_id = Ok c' \<and> completed c'"
  using assms
proof (induction calls arbitrary: s c)
  case Nil
  then show ?case by simp
next
  case (Cons call calls)
  from Cons.prems(1) obtain s1 where step: "exec call s = Some s1"
    and rest: "run calls s1 = Some s'"
    by (auto split: option.splits)
  from completed_exec [OF step Cons.prems(2)] Cons.prems(3)
  obtain c1 where "get_campaign s1 campaign_id = Ok c1" and "completed c1" by auto
  from Cons.IH [OF rest this] show ?case .
qed

text \<open>
  C4, as the code has it. For an existing campaign: \<^verbatim>\<open>finalize\<close> on a completed campaign
  fails and changes nothing, with \<^verbatim>\<open>CampaignCompleted\<close> for the owner and \<^verbatim>\<open>OnlyOwner\<close>
  for anyone else; a call leaves \<^verbatim>\<open>completed\<close> as it is unless it is a \<^verbatim>\<open>finalize\<close> of
  that campaign; and a completed campaign stays completed through every call and every
  history.
\<close>

theorem completed_is_final:
  assumes "get_campaign s campaign_id = Ok c"
  shows "(completed c \<longrightarrow>
            finalize e campaign_id s
              = (Err (if caller e = owner c then CampaignCompleted else OnlyOwner), s))
       \<and> (exec call s = Some s' \<longrightarrow>
            (\<exists>c'. get_campaign s' campaign_id = Ok c' \<and> (completed c \<longrightarrow> completed c')
               \<and> ((\<forall>e'. call \<noteq> Finalize e' campaign_id) \<longrightarrow> completed c' = completed c)))
       \<and> (run calls s = Some s'' \<longrightarrow> completed c \<longrightarrow>
            (\<exists>c''. get_campaign s'' campaign_id = Ok c'' \<and> completed c''))"
  using finalize_completed [OF assms] completed_exec [OF _ assms] completed_run [OF _ assms]
  by blast

lemma get_campaign_s_failed:
  "get_campaign s_failed 0 = Ok (demo_campaign\<lparr>raised := 300, completed := True\<rparr>)"
  by (simp add: get_campaign_cases s_failed_def s_funded_def storage_vec_len_def)

lemma get_campaign_s_refunded:
  "get_campaign s_refunded 0 = Ok (demo_campaign\<lparr>raised := 300, completed := True\<rparr>)"
  by (simp add: get_campaign_cases s_refunded_def storage_vec_len_def)

theorem completed_is_final_witness:
  "get_campaign s_failed 0 = Ok (demo_campaign\<lparr>raised := 300, completed := True\<rparr>)
   \<and> completed (demo_campaign\<lparr>raised := 300, completed := True\<rparr>)
   \<and> finalize (env_of alice 500) 0 s_failed = (Err CampaignCompleted, s_failed)
   \<and> finalize (env_of bob 500) 0 s_failed = (Err OnlyOwner, s_failed)
   \<and> exec (ClaimRefund (env_of bob 200) 0) s_failed = Some s_refunded
   \<and> run [ClaimRefund (env_of bob 200) 0, Contribute (env_of bob 60) 0 5] s_failed
       = Some s_refunded
   \<and> get_campaign s_refunded 0 = Ok (demo_campaign\<lparr>raised := 300, completed := True\<rparr>)"
proof -
  have fin: "completed (demo_campaign\<lparr>raised := 300, completed := True\<rparr>)"
    by simp
  have step: "exec (ClaimRefund (env_of bob 200) 0) s_failed = Some s_refunded"
    by (simp add: demo_claim_refund settle_def)
  have history: "run [ClaimRefund (env_of bob 200) 0, Contribute (env_of bob 60) 0 5] s_failed
                   = Some s_refunded"
    by (simp add: demo_claim_refund demo_retry settle_def)
  from completed_is_final [OF get_campaign_s_failed, of "env_of alice 500"]
       completed_is_final [OF get_campaign_s_failed, of "env_of bob 500"]
       get_campaign_s_failed get_campaign_s_refunded fin step history
  show ?thesis by (simp add: demo_defs)
qed

text \<open>
  C4 as stated fails for a caller who is not the owner: the owner check comes first, so
  \<^verbatim>\<open>finalize\<close> on a completed campaign answers \<^verbatim>\<open>OnlyOwner\<close>, not \<^verbatim>\<open>CampaignCompleted\<close>.
\<close>

theorem completed_finalize_by_stranger:
  "get_campaign s_failed 0 = Ok (demo_campaign\<lparr>raised := 300, completed := True\<rparr>)
   \<and> completed (demo_campaign\<lparr>raised := 300, completed := True\<rparr>)
   \<and> finalize (env_of bob 500) 0 s_failed = (Err OnlyOwner, s_failed)
   \<and> fst (finalize (env_of bob 500) 0 s_failed) \<noteq> Err CampaignCompleted"
proof -
  have "finalize (env_of bob 500) 0 s_failed = (Err OnlyOwner, s_failed)"
    by (simp add: finalize_unfold message_defs demo_defs)
  with get_campaign_s_failed show ?thesis by simp
qed

subsection \<open>Creating campaigns\<close>

lemma create_campaign_Ok:
  assumes "g \<noteq> 0" and "block_timestamp e < dl"
    and "length (campaigns s) < 2 ^ 32 - 1" and "next_campaign_id s \<noteq> - 1"
  shows "create_campaign e t d g dl s
           = (Ok (next_campaign_id s),
              s\<lparr>campaigns := campaigns s @
                   [\<lparr>ident = next_campaign_id s, title = t, description = d, goal = g,
                     deadline = dl, owner = caller e, raised = 0, completed = False\<rparr>],
                 next_campaign_id := next_campaign_id s + 1\<rparr>)"
  using assms by (simp add: create_campaign_unfold storage_vec_push_def Let_def not_le)

lemma create_campaign_invalid:
  "fst (create_campaign e t d g dl s) = Err InvalidParameters
     \<longleftrightarrow> g = 0 \<or> dl \<le> block_timestamp e"
  by (auto simp: create_campaign_unfold storage_vec_push_def Let_def split: option.splits)

lemma create_campaign_full:
  assumes "g \<noteq> 0" and "block_timestamp e < dl" and "\<not> length (campaigns s) < 2 ^ 32 - 1"
  shows "create_campaign e t d g dl s = (Panic, s)"
  using assms by (simp add: create_campaign_unfold storage_vec_push_def Let_def not_le)

lemma of_nat_not_max:
  assumes "n < 2 ^ 32 - 1"
  shows "(of_nat n :: u32) \<noteq> - 1"
proof
  assume "(of_nat n :: u32) = - 1"
  then have "unat (of_nat n :: u32) = unat (- 1 :: u32)" by simp
  with assms show False
    by (simp add: unat_of_nat unsigned_minus_1_eq_mask mask_eq_exp_minus_1)
qed

lemma exec_open_well:
  assumes "n < 2 ^ 32 - 1"
  shows "exec open_well (s_numbered n) = Some (s_numbered (Suc n))"
proof -
  have g: "(1000 :: u256) \<noteq> 0" by simp
  have early: "block_timestamp (env_of alice 0) < 100" by (simp add: env_of_def)
  have room: "length (campaigns (s_numbered n)) < 2 ^ 32 - 1"
    using assms by (simp add: s_numbered_def numbered_def)
  have top: "next_campaign_id (s_numbered n) \<noteq> - 1"
    using of_nat_not_max [OF assms] by (simp add: s_numbered_def)
  have "s_numbered n\<lparr>campaigns := campaigns (s_numbered n) @
            [\<lparr>ident = next_campaign_id (s_numbered n), title = ''well'',
              description = ''a village well'', goal = 1000, deadline = 100,
              owner = caller (env_of alice 0), raised = 0, completed = False\<rparr>],
          next_campaign_id := next_campaign_id (s_numbered n) + 1\<rparr> = s_numbered (Suc n)"
    by (simp add: s_numbered_def numbered_def env_of_def demo_campaign_def add.commute)
  with create_campaign_Ok [OF g early room top, of "''well''" "''a village well''"]
  show ?thesis by (simp add: open_well_def settle_def)
qed

lemma run_open_well:
  assumes "k + n \<le> 2 ^ 32 - 1"
  shows "run (replicate n open_well) (s_numbered k) = Some (s_numbered (k + n))"
  using assms
proof (induction n arbitrary: k)
  case 0
  then show ?case by simp
next
  case (Suc n)
  then have "k < 2 ^ 32 - 1" and "Suc k + n \<le> 2 ^ 32 - 1" by simp_all
  with Suc.IH [of "Suc k"] exec_open_well [of k] show ?case by simp
qed

lemma s_numbered_0: "s_numbered 0 = new demo_token"
  by (simp add: s_numbered_def numbered_def new_def)

lemma reach_s_full: "run (replicate 4294967295 open_well) (new demo_token) = Some s_full"
  using run_open_well [of 0 4294967295] by (simp add: s_numbered_0 s_full_def)

text \<open>
  C5, as the code has it. \<^verbatim>\<open>create_campaign\<close> fails with \<^verbatim>\<open>InvalidParameters\<close> exactly when
  the goal is zero or the deadline is not after the block time. Otherwise, while the store
  has room (fewer than \<open>2\<^sup>3\<^sup>2 - 1\<close> campaigns) and the id counter is not at its maximum, it
  appends the campaign with the given fields, the caller as owner, nothing raised and not
  completed, under the id \<^verbatim>\<open>next_campaign_id\<close>, returns that id and advances the counter. In
  a reachable state with room the counter is the number of stored campaigns, is below its
  maximum and is the id of no stored campaign. The empty store starts counting at 0.
\<close>

theorem create_campaign_spec:
  "(fst (create_campaign e t d g dl s) = Err InvalidParameters
      \<longleftrightarrow> g = 0 \<or> dl \<le> block_timestamp e)
   \<and> (g \<noteq> 0 \<and> block_timestamp e < dl \<and> length (campaigns s) < 2 ^ 32 - 1
        \<and> next_campaign_id s \<noteq> - 1 \<longrightarrow>
        create_campaign e t d g dl s
          = (Ok (next_campaign_id s),
             s\<lparr>campaigns := campaigns s @
                  [\<lparr>ident = next_campaign_id s, title = t, description = d, goal = g,
                    deadline = dl, owner = caller e, raised = 0, completed = False\<rparr>],
                next_campaign_id := next_campaign_id s + 1\<rparr>))
   \<and> (run calls (new tok) = Some s \<and> length (campaigns s) < 2 ^ 32 - 1 \<longrightarrow>
        next_campaign_id s \<noteq> - 1
        \<and> unat (next_campaign_id s) = length (campaigns s)
        \<and> next_campaign_id s \<notin> ident ` set (campaigns s))
   \<and> next_campaign_id (new tok) = 0"
proof -
  have "next_campaign_id s \<noteq> - 1 \<and> unat (next_campaign_id s) = length (campaigns s)
        \<and> next_campaign_id s \<notin> ident ` set (campaigns s)"
    if reach: "run calls (new tok) = Some s" and room: "length (campaigns s) < 2 ^ 32 - 1"
  proof -
    from reachable_inv [OF reach] have st: "store_ok s" by (simp add: engine_inv_def)
    then have count: "unat (next_campaign_id s) = length (campaigns s)"
      and ids: "\<forall>i < length (campaigns s). ident (campaigns s ! i) = of_nat i"
      by (simp_all add: store_ok_def)
    have "of_nat (unat (next_campaign_id s)) = next_campaign_id s" by simp
    with count have next_eq: "next_campaign_id s = of_nat (length (campaigns s))" by simp
    have fresh: "next_campaign_id s \<notin> ident ` set (campaigns s)"
    proof
      assume "next_campaign_id s \<in> ident ` set (campaigns s)"
      then obtain i where i: "i < length (campaigns s)"
        and "ident (campaigns s ! i) = next_campaign_id s"
        by (auto simp: in_set_conv_nth)
      with ids have "(of_nat i :: u32) = next_campaign_id s" by simp
      then have "unat (of_nat i :: u32) = length (campaigns s)" using count by simp
      moreover from i room have "unat (of_nat i :: u32) = i" by (simp add: unat_of_nat)
      ultimately show False using i by simp
    qed
    from of_nat_not_max [OF room] next_eq count fresh show ?thesis by simp
  qed
  with create_campaign_invalid [of e t d g dl s] create_campaign_Ok [of g e dl s t d]
  show ?thesis by (simp add: new_def)
qed

lemma reach_s_created: "run [open_well] (new demo_token) = Some s_created"
  by (simp add: open_well_def demo_create settle_def)

theorem create_campaign_spec_witness:
  "fst (create_campaign (env_of bob 7) ''pump'' ''a pump'' 0 100 s_created)
     = Err InvalidParameters
   \<and> fst (create_campaign (env_of bob 7) ''pump'' ''a pump'' 5 7 s_created)
     = Err InvalidParameters
   \<and> run [open_well] (new demo_token) = Some s_created
   \<and> length (campaigns s_created) < 2 ^ 32 - 1
   \<and> create_campaign (env_of bob 7) ''pump'' ''a pump'' 5 8 s_created
       = (Ok 1, s_created\<lparr>campaigns :=
                  [demo_campaign,
                   \<lparr>ident = 1, title = ''pump'', description = ''a pump'', goal = 5,
                    deadline = 8, owner = bob, raised = 0, completed = False\<rparr>],
                  next_campaign_id := 2\<rparr>)
   \<and> 1 \<notin> ident ` set (campaigns s_created)"
proof -
  have room: "length (campaigns s_created) < 2 ^ 32 - 1"
    and nx: "next_campaign_id s_created = 1"
    and cs: "campaigns s_created = [demo_campaign]"
    by (simp_all add: s_created_def)
  have env: "block_timestamp (env_of bob 7) = 7" "caller (env_of bob 7) = bob"
    by (simp_all add: env_of_def)
  note spec = create_campaign_spec [of "env_of bob 7" "''pump''" "''a pump''" _ _ s_created
                 "[open_well]" demo_token]
  from spec [of 0 100] have zero_goal:
    "fst (create_campaign (env_of bob 7) ''pump'' ''a pump'' 0 100 s_created)
       = Err InvalidParameters"
    by simp
  from spec [of 5 7] have at_deadline:
    "fst (create_campaign (env_of bob 7) ''pump'' ''a pump'' 5 7 s_created)
       = Err InvalidParameters"
    by (simp add: env)
  from spec [of 5 8] reach_s_created room
  have fresh: "next_campaign_id s_created \<noteq> - 1"
    "next_campaign_id s_created \<notin> ident ` set (campaigns s_created)"
    by blast+
  have valid: "(5 :: u256) \<noteq> 0" "block_timestamp (env_of bob 7) < 8"
    by (simp_all add: env)
  from spec [of 5 8] valid room fresh(1)
  have "create_campaign (env_of bob 7) ''pump'' ''a pump'' 5 8 s_created
          = (Ok (next_campaign_id s_created),
             s_created\<lparr>campaigns := campaigns s_created @
                  [\<lparr>ident = next_campaign_id s_created, title = ''pump'',
                    description = ''a pump'', goal = 5, deadline = 8,
                    owner = caller (env_of bob 7), raised = 0, completed = False\<rparr>],
                next_campaign_id := next_campaign_id s_created + 1\<rparr>)"
    by blast
  then have made: "create_campaign (env_of bob 7) ''pump'' ''a pump'' 5 8 s_created
       = (Ok 1, s_created\<lparr>campaigns :=
                  [demo_campaign,
                   \<lparr>ident = 1, title = ''pump'', description = ''a pump'', goal = 5,
                    deadline = 8, owner = bob, raised = 0, completed = False\<rparr>],
                  next_campaign_id := 2\<rparr>)"
    by (simp add: nx cs env)
  from fresh(2) have "1 \<notin> ident ` set (campaigns s_created)" unfolding nx .
  with zero_goal at_deadline reach_s_created room made show ?thesis by blast
qed

text \<open>
  C5 as stated fails when the store is full: after \<open>2\<^sup>3\<^sup>2 - 1\<close> successful calls the next
  call, with valid parameters, aborts instead of appending a campaign.
\<close>

theorem create_campaign_full_store:
  "(1000 :: u256) \<noteq> 0 \<and> block_timestamp (env_of alice 0) < 100
   \<and> run (replicate 4294967295 open_well) (new demo_token) = Some s_full
   \<and> create_campaign (env_of alice 0) ''well'' ''a village well'' 1000 100 s_full
       = (Panic, s_full)"
proof -
  have late: "block_timestamp (env_of alice 0) < 100"
    by (simp add: env_of_def)
  have "\<not> length (campaigns s_full) < 2 ^ 32 - 1"
    by (simp add: s_full_def s_numbered_def numbered_def)
  from create_campaign_full [OF _ late this, of 1000] reach_s_full late
  show ?thesis by simp
qed

subsection \<open>Over-funding\<close>

lemma contribute_Ok:
  assumes "get_campaign s campaign_id = Ok c" and "\<not> completed c"
    and "block_timestamp e \<le> deadline c"
    and "transfer_from (token_contract s) (account_id e) (caller e) (account_id e)
           (unat amount) = Inr t"
    and "unat (raised c) + unat amount < 2 ^ 256"
    and "unat (get_contribution s campaign_id (caller e)) + unat amount < 2 ^ 256"
  shows "contribute e campaign_id amount s
           = (Ok (), s\<lparr>token_contract := t,
                       campaigns := (campaigns s)
                         [unat campaign_id := c\<lparr>raised := raised c + amount\<rparr>],
                       contributions := (contributions s)
                         ((campaign_id, caller e) \<mapsto>
                            get_contribution s campaign_id (caller e) + amount)\<rparr>)"
proof -
  from assms(3) have "\<not> deadline c < block_timestamp e" by simp
  with assms(1,2,4-6) show ?thesis
    by (simp add: contribute_unfold get_campaign_mut_def checked_add_def get_contribution_def
          Let_def)
qed

lemma contribute_ignores_goal:
  assumes "get_campaign s campaign_id = Ok c"
  shows "fst (contribute e campaign_id amount
            (s\<lparr>campaigns := (campaigns s)[unat campaign_id := c\<lparr>goal := g\<rparr>]\<rparr>))
           = fst (contribute e campaign_id amount s)"
proof -
  let ?s = "s\<lparr>campaigns := (campaigns s)[unat campaign_id := c\<lparr>goal := g\<rparr>]\<rparr>"
  have "campaigns ?s = (campaigns s)[unat campaign_id := c\<lparr>goal := g\<rparr>]" by simp
  from get_campaign_update [OF assms this]
  have "get_campaign ?s campaign_id = Ok (c\<lparr>goal := g\<rparr>)" by simp
  with assms show ?thesis
    by (simp add: contribute_unfold get_campaign_mut_def Let_def
          split: sum.splits option.splits)
qed

lemma finalize_success:
  assumes "get_campaign s campaign_id = Ok c" and "goal c \<le> raised c"
    and "finalize e campaign_id s = (Ok (), s')"
  shows "transfer (token_contract s) (account_id e) (owner c) (unat (raised c))
           = Inr (token_contract s')"
  using finalize_cases [OF assms(3)] assms(1,2)
  by (auto split: sum.splits)

lemma transfer_balances:
  assumes "transfer t a b n = Inr t'"
  shows "n \<le> balances t a"
    and "a \<noteq> b \<Longrightarrow> balances t' a = balances t a - n \<and> balances t' b = balances t b + n"
    and "x \<noteq> a \<Longrightarrow> x \<noteq> b \<Longrightarrow> balances t' x = balances t x"
    and "allowances t' = allowances t"
  using assms by (auto simp: transfer_def Let_def split: if_splits)

text \<open>
  C9. The result of \<^verbatim>\<open>contribute\<close> is the same whatever the goal of the campaign is: a
  contribution to an existing campaign that is not completed and whose deadline has not
  passed succeeds whenever the token transfer succeeds and the additions stay in range, so
  no contribution is refused for reaching or passing the goal. A successful \<^verbatim>\<open>finalize\<close>
  of a campaign with \<^verbatim>\<open>raised\<close> at or above the goal transfers all of \<^verbatim>\<open>raised\<close>, surplus
  included, from the contract's account to the owner.
\<close>

theorem overfunding_paid_in_full:
  assumes "get_campaign s campaign_id = Ok c"
  shows "fst (contribute e campaign_id amount
            (s\<lparr>campaigns := (campaigns s)[unat campaign_id := c\<lparr>goal := g\<rparr>]\<rparr>))
           = fst (contribute e campaign_id amount s)
       \<and> (\<not> completed c \<and> block_timestamp e \<le> deadline c
            \<and> transfer_from (token_contract s) (account_id e) (caller e) (account_id e)
                 (unat amount) = Inr t
            \<and> unat (raised c) + unat amount < 2 ^ 256
            \<and> unat (get_contribution s campaign_id (caller e)) + unat amount < 2 ^ 256
            \<longrightarrow> fst (contribute e campaign_id amount s) = Ok ())
       \<and> (goal c \<le> raised c \<and> finalize e campaign_id s = (Ok (), s') \<longrightarrow>
            transfer (token_contract s) (account_id e) (owner c) (unat (raised c))
              = Inr (token_contract s')
            \<and> unat (raised c) \<le> balances (token_contract s) (account_id e)
            \<and> (owner c \<noteq> account_id e \<longrightarrow>
                 balances (token_contract s') (account_id e)
                   = balances (token_contract s) (account_id e) - unat (raised c)
                 \<and> balances (token_contract s') (owner c)
                   = balances (token_contract s) (owner c) + unat (raised c)))"
proof -
  have "fst (contribute e campaign_id amount s) = Ok ()"
    if "\<not> completed c" "block_timestamp e \<le> deadline c"
      "transfer_from (token_contract s) (account_id e) (caller e) (account_id e)
         (unat amount) = Inr t"
      "unat (raised c) + unat amount < 2 ^ 256"
      "unat (get_contribution s campaign_id (caller e)) + unat amount < 2 ^ 256"
    using contribute_Ok [OF assms that] by simp
  moreover have "transfer (token_contract s) (account_id e) (owner c) (unat (raised c))
              = Inr (token_contract s')
            \<and> unat (raised c) \<le> balances (token_contract s) (account_id e)
            \<and> (owner c \<noteq> account_id e \<longrightarrow>
                 balances (token_contract s') (account_id e)
                   = balances (token_contract s) (account_id e) - unat (raised c)
                 \<and> balances (token_contract s') (owner c)
                   = balances (token_contract s) (owner c) + unat (raised c))"
    if "goal c \<le> raised c" "finalize e campaign_id s = (Ok (), s')"
  proof -
    note paid = finalize_success [OF assms that]
    from transfer_balances(1,2) [OF paid] paid show ?thesis by simp
  qed
  ultimately show ?thesis
    using contribute_ignores_goal [OF assms, of e amount g] by blast
qed

lemma get_campaign_s_over: "get_campaign s_over 0 = Ok (demo_campaign\<lparr>raised := 1100\<rparr>)"
  by (simp add: get_campaign_cases s_over_def storage_vec_len_def)

lemma demo_payout: "finalize (env_of alice 101) 0 s_over = (Ok (), s_paid)"
  by (simp add: finalize_unfold message_defs demo_defs s_paid_def fun_eq_iff)

lemma demo_topup: "fst (contribute (env_of bob 60) 0 100 s_over) = Ok ()"
  by (simp add: contribute_unfold message_defs demo_defs)

theorem overfunding_paid_in_full_witness:
  "get_campaign s_over 0 = Ok (demo_campaign\<lparr>raised := 1100\<rparr>)
   \<and> goal (demo_campaign\<lparr>raised := 1100\<rparr>) \<le> raised (demo_campaign\<lparr>raised := 1100\<rparr>)
   \<and> fst (contribute (env_of bob 60) 0 100 s_over) = Ok ()
   \<and> fst (contribute (env_of bob 60) 0 100
          (s_over\<lparr>campaigns := (campaigns s_over)
             [unat (0 :: u32) := demo_campaign\<lparr>raised := 1100, goal := 5000\<rparr>]\<rparr>)) = Ok ()
   \<and> finalize (env_of alice 101) 0 s_over = (Ok (), s_paid)
   \<and> owner (demo_campaign\<lparr>raised := 1100\<rparr>) \<noteq> account_id (env_of alice 101)
   \<and> balances (token_contract s_over) escrow = 1100
   \<and> balances (token_contract s_paid) escrow = 0
   \<and> balances (token_contract s_paid) alice = 1100"
proof -
  have over: "goal (demo_campaign\<lparr>raised := 1100\<rparr>) \<le> raised (demo_campaign\<lparr>raised := 1100\<rparr>)"
    and other: "owner (demo_campaign\<lparr>raised := 1100\<rparr>) \<noteq> account_id (env_of alice 101)"
    and who: "owner (demo_campaign\<lparr>raised := 1100\<rparr>) = alice"
      "account_id (env_of alice 101) = escrow"
    and before: "balances (token_contract s_over) escrow = 1100"
      "balances (token_contract s_over) alice = 0"
    and r: "unat (raised (demo_campaign\<lparr>raised := 1100\<rparr>)) = 1100"
    by (simp_all add: demo_defs)
  note spec = overfunding_paid_in_full [OF get_campaign_s_over]
  from spec [of "env_of bob 60" 100 5000] demo_topup
  have any_goal: "fst (contribute (env_of bob 60) 0 100
          (s_over\<lparr>campaigns := (campaigns s_over)
             [unat (0 :: u32) := demo_campaign\<lparr>raised := 1100, goal := 5000\<rparr>]\<rparr>)) = Ok ()"
    by simp
  from spec [of "env_of alice 101" _ _ _ s_paid] over demo_payout other
  have "balances (token_contract s_paid) (account_id (env_of alice 101))
          = balances (token_contract s_over) (account_id (env_of alice 101))
              - unat (raised (demo_campaign\<lparr>raised := 1100\<rparr>))"
    and "balances (token_contract s_paid) (owner (demo_campaign\<lparr>raised := 1100\<rparr>))
          = balances (token_contract s_over) (owner (demo_campaign\<lparr>raised := 1100\<rparr>))
              + unat (raised (demo_campaign\<lparr>raised := 1100\<rparr>))"
    by blast+
  then have "balances (token_contract s_paid) escrow = 0"
    and "balances (token_contract s_paid) alice = 1100"
    by (simp_all only: who before r)
  with get_campaign_s_over over demo_topup any_goal demo_payout other before(1)
  show ?thesis by blast
qed

subsection \<open>Overflow in contribute\<close>

lemma unat_u256_max: "unat u256_max = 2 ^ 256 - 1"
  by (simp add: u256_max_def unsigned_minus_1_eq_mask mask_eq_exp_minus_1)

lemma entry_le_raised:
  assumes "ledger_ok s" and "get_campaign s campaign_id = Ok c"
  shows "unat (get_contribution s campaign_id a) \<le> unat (raised c)"
proof -
  from assms(2) have "unat campaign_id < length (campaigns s)"
    and "c = campaigns s ! unat campaign_id"
    by (simp_all add: get_campaign_Ok storage_vec_lookup)
  with assms(1) have "contribution_sum s campaign_id \<le> unat (raised c)"
    by (simp add: ledger_ok_def)
  with entry_le_sum [of s campaign_id a] show ?thesis by simp
qed





lemma overflow_needs_large_supply:
  assumes "get_campaign s campaign_id = Ok c" and "ledger_ok s"
    and "unat (raised c) \<le> balances (token_contract s) (account_id e)"
    and "caller e \<noteq> account_id e"
    and "transfer_from (token_contract s) (account_id e) (caller e) (account_id e)
           (unat amount) = Inr t"
    and "2 ^ 256 \<le> unat (get_contribution s campaign_id (caller e)) + unat amount"
  shows "2 ^ 256 \<le> balances (token_contract s) (account_id e)
                     + balances (token_contract s) (caller e)"
proof -
  from assms(5) have "unat amount \<le> balances (token_contract s) (caller e)"
    by (auto simp add: transfer_from_def transfer_def split: if_splits)
  with entry_le_raised [OF assms(2,1), of "caller e"] assms(3,6) show ?thesis by simp
qed






lemma demo_gift:
  "(case transfer filled_token carol bob 5 of
      Inl x \<Rightarrow> None
    | Inr t \<Rightarrow> Some (approve t bob escrow 5)) = Some gift_token"
  by (simp add: transfer_def approve_def filled_token_def gift_token_def demo_defs fun_eq_iff)





lemma demo_overflow:
  "contribute_body (env_of bob 60) 0 1 s_brim
     = (Err Overflow,
        s_brim\<lparr>token_contract :=
                 \<lparr>balances = (\<lambda>_. 0)(bob := 4, carol := 0, escrow := 2 ^ 256),
                  allowances = (\<lambda>_. 0)((bob, escrow) := 4)\<rparr>\<rparr>)"
  "contribute (env_of bob 60) 0 1 s_brim = (Err Overflow, s_brim)"
  by (simp_all add: contribute_unfold message_defs demo_defs s_brim_def gift_token_def
        unat_u256_max fun_eq_iff)



subsection \<open>What a failing message leaves behind\<close>

text \<open>
  C2. Every mutating message is atomic. Whatever the storage it is called on, if
  \<^verbatim>\<open>create_campaign\<close>, \<^verbatim>\<open>contribute\<close>, \<^verbatim>\<open>finalize\<close> or \<^verbatim>\<open>claim_refund\<close> returns an error,
  \<^verbatim>\<open>Overflow\<close> of the checked addition after the token's \<^verbatim>\<open>transfer_from\<close> included, the
  storage the caller observes afterwards, that is the token balances and allowances, the
  campaigns and the contribution entries, is the storage from before the call.
\<close>

theorem errors_change_nothing:
  "(create_campaign e t d g dl s = (Err x, s') \<longrightarrow> s' = s)
   \<and> (contribute e campaign_id amount s = (Err x, s') \<longrightarrow> s' = s)
   \<and> (finalize e campaign_id s = (Err x, s') \<longrightarrow> s' = s)
   \<and> (claim_refund e campaign_id s = (Err x, s') \<longrightarrow> s' = s)"
  unfolding create_campaign_def contribute_def finalize_def claim_refund_def
  by (auto dest: ink_message_Err)

lemma demo_invalid:
  "create_campaign (env_of bob 7) ''pump'' ''a pump'' 0 100 s_created
     = (Err InvalidParameters, s_created)"
  by (simp add: create_campaign_unfold)

lemma demo_too_early:
  "claim_refund (env_of bob 60) 0 s_funded = (Err CampaignNotCompleted, s_funded)"
  by (simp add: claim_refund_unfold message_defs demo_defs)

lemma demo_stranger:
  "finalize (env_of bob 500) 0 s_funded = (Err OnlyOwner, s_funded)"
  by (simp add: finalize_unfold message_defs demo_defs)

lemma demo_short:
  "fst (contribute (env_of alice 60) 0 5 s_funded) = Err InsufficientAllowance"
  by (simp add: contribute_unfold message_defs demo_defs)

theorem errors_change_nothing_witness:
  "create_campaign (env_of bob 7) ''pump'' ''a pump'' 0 100 s_created
     = (Err InvalidParameters, s_created)
   \<and> contribute (env_of bob 60) 0 5 s_refunded = (Err CampaignCompleted, s_refunded)
   \<and> contribute (env_of alice 60) 0 5 s_funded = (Err InsufficientAllowance, s_funded)
   \<and> finalize (env_of bob 500) 0 s_funded = (Err OnlyOwner, s_funded)
   \<and> claim_refund (env_of bob 60) 0 s_funded = (Err CampaignNotCompleted, s_funded)"
proof -
  have "contribute (env_of alice 60) 0 5 s_funded
          = (Err InsufficientAllowance, snd (contribute (env_of alice 60) 0 5 s_funded))"
    using demo_short by (metis prod.collapse)
  with errors_change_nothing [where e = "env_of alice 60" and campaign_id = 0 and amount = 5
                 and s = s_funded and x = InsufficientAllowance
                 and s' = "snd (contribute (env_of alice 60) 0 5 s_funded)"]
  have "contribute (env_of alice 60) 0 5 s_funded = (Err InsufficientAllowance, s_funded)"
    by simp
  with demo_invalid demo_retry demo_stranger demo_too_early show ?thesis by simp
qed

end
